theory Spec2Isabelle
  imports Main "HOL-Library.AList" "HOL-Library.Sublist"
begin

section \<open>Values and documents\<close>

text \<open>
  The Python values that travel through the nodes of \<^verbatim>\<open>shed/simple.py\<close>: a document is a
  pair of a name and a body, the body is a \<^verbatim>\<open>dict\<close> with string keys. A \<^verbatim>\<open>dict\<close> is an
  association list in insertion order; a lookup reads the first binding of the key and
  \<open>AList.update\<close> is the assignment \<^verbatim>\<open>d[k] = v\<close> (an existing key keeps its place).
\<close>

datatype pyval =
    VNone
  | VInt int
  | VStr string
  | VTuple "pyval list"
  | VList "pyval list"
  | VDict "(string \<times> pyval) list"

type_synonym pydict = "(string \<times> pyval) list"

type_synonym document = "string \<times> pydict"

datatype error = KeyError | TypeError | IndexError | RuntimeError

text \<open>
  References to node objects: \<^verbatim>\<open>subs\<close>, \<^verbatim>\<open>upstreams\<close> and \<^verbatim>\<open>downstreams\<close> hold them.
\<close>

type_synonym ref = nat

text \<open>
  \<^verbatim>\<open>_hash_or_uid(node)\<close> is the attribute \<^verbatim>\<open>uid\<close> of the node, a string, or the hash of
  the object when it has none. The dependency graph and \<^verbatim>\<open>translation_nodes\<close> are keyed by it.
\<close>

datatype key = Uid string | Hash nat

text \<open>
  What a node does to the outside during one call, in the order in which it does it:
  \<open>Emit v\<close> is \<^verbatim>\<open>self.emit(v)\<close>, \<open>CallEmitStart s x\<close> is \<^verbatim>\<open>s.emit_start(x)\<close> on the
  dependent \<open>s\<close>, \<open>CallEmitStop s x\<close> is \<^verbatim>\<open>s.emit_stop(x)\<close>.
\<close>

datatype 'a action =
    Emit 'a
  | CallEmitStart ref pyval
  | CallEmitStop ref pyval

fun is_emit :: "'a action \<Rightarrow> bool" where
  "is_emit (Emit v) = True"
| "is_emit (CallEmitStart s x) = False"
| "is_emit (CallEmitStop s x) = False"

fun emitted :: "'a action list \<Rightarrow> 'a list" where
  "emitted [] = []"
| "emitted (Emit v # as) = v # emitted as"
| "emitted (CallEmitStart s x # as) = emitted as"
| "emitted (CallEmitStop s x # as) = emitted as"

text \<open>The module constant \<^verbatim>\<open>ALL\<close> (the name is a keyword of the logic, so it is suffixed).\<close>

definition ALL_DOCS :: string where
  "ALL_DOCS = ''--ALL THE DOCS--''"

text \<open>The pair \<^verbatim>\<open>x = (name, doc)\<close> as the value that is handed on to the dependents.\<close>

definition doc_val :: "document \<Rightarrow> pyval" where
  "doc_val x = VTuple [VStr (fst x), VDict (snd x)]"

text \<open>\<^verbatim>\<open>doc.get(k, default)\<close> and \<^verbatim>\<open>doc[k]\<close>.\<close>

definition dict_get :: "pydict \<Rightarrow> string \<Rightarrow> pyval \<Rightarrow> pyval" where
  "dict_get d k dflt = (case map_of d k of None \<Rightarrow> dflt | Some v \<Rightarrow> v)"

definition dict_item :: "pydict \<Rightarrow> string \<Rightarrow> error + pyval" where
  "dict_item d k = (case map_of d k of None \<Rightarrow> Inl KeyError | Some v \<Rightarrow> Inr v)"

text \<open>\<^verbatim>\<open>a in b\<close> for strings: \<open>a\<close> occurs in \<open>b\<close> as a contiguous block.\<close>

fun str_contains :: "string \<Rightarrow> string \<Rightarrow> bool" where
  "str_contains a [] = (a = [])"
| "str_contains a (c # cs) = (prefix a (c # cs) \<or> str_contains a cs)"

text \<open>
  \<^verbatim>\<open>da in inner\<close> and \<^verbatim>\<open>inner[da]\<close> for a string key \<open>da\<close>, by the type of \<open>inner\<close>:
  a dict is searched by key, a tuple or a list by element, a string by substring, and
  \<^verbatim>\<open>None\<close> and numbers are not containers; only a dict can be indexed by a string.
\<close>

fun py_in :: "string \<Rightarrow> pyval \<Rightarrow> error + bool" where
  "py_in k (VDict d) = Inr (k \<in> fst ` set d)"
| "py_in k (VTuple vs) = Inr (VStr k \<in> set vs)"
| "py_in k (VList vs) = Inr (VStr k \<in> set vs)"
| "py_in k (VStr s) = Inr (str_contains k s)"
| "py_in k VNone = Inl TypeError"
| "py_in k (VInt i) = Inl TypeError"

fun py_getitem :: "pyval \<Rightarrow> string \<Rightarrow> error + pyval" where
  "py_getitem (VDict d) k = dict_item d k"
| "py_getitem (VTuple vs) k = Inl TypeError"
| "py_getitem (VList vs) k = Inl TypeError"
| "py_getitem (VStr s) k = Inl TypeError"
| "py_getitem VNone k = Inl TypeError"
| "py_getitem (VInt i) k = Inl TypeError"

section \<open>The extraction node: \<^verbatim>\<open>SimpleFromEventStream\<close>\<close>

text \<open>
  A component of \<^verbatim>\<open>data_address\<close> is a key, or a tuple of keys
  (\<^verbatim>\<open>isinstance(da, tuple)\<close>) that are all read at the same level.
\<close>

datatype addr = Key string | Keys "string list"

record from_event_stream =
  principle :: bool
  doc_type :: string
  data_address :: "addr list"
  event_stream_name :: string
  uid :: string
  descriptor_uids :: "pyval list"
  subs :: "ref list"
  start_uid :: pyval

text \<open>\<^verbatim>\<open>tuple(inner[daa] for daa in da)\<close>: the first key that is missing raises.\<close>

fun getitems :: "pyval \<Rightarrow> string list \<Rightarrow> error + pyval list" where
  "getitems inner [] = Inr []"
| "getitems inner (daa # da) =
     (case py_getitem inner daa of
        Inl e \<Rightarrow> Inl e
      | Inr v \<Rightarrow> (case getitems inner da of Inl e \<Rightarrow> Inl e | Inr vs \<Rightarrow> Inr (v # vs)))"

text \<open>
  The loop \<^verbatim>\<open>for da in self.data_address\<close> of \<^verbatim>\<open>update\<close> (lines 176 to 185). The result
  \<open>Inr None\<close> is the bare \<^verbatim>\<open>return\<close> of line 185, \<open>Inr (Some v)\<close> is the value that
  line 186 emits, \<open>Inl e\<close> is an exception that leaves \<^verbatim>\<open>update\<close>.
\<close>

fun resolve :: "addr list \<Rightarrow> pyval \<Rightarrow> error + pyval option" where
  "resolve [] inner = Inr (Some inner)"
| "resolve (Keys da # das) inner =
     (case getitems inner da of
        Inl e \<Rightarrow> Inl e
      | Inr vs \<Rightarrow> resolve das (VTuple vs))"
| "resolve (Key da # das) inner =
     (case py_in da inner of
        Inl e \<Rightarrow> Inl e
      | Inr False \<Rightarrow> Inr None
      | Inr True \<Rightarrow>
          (case py_getitem inner da of
             Inl e \<Rightarrow> Inl e
           | Inr v \<Rightarrow> resolve das v))"

text \<open>Lines 149 to 152: a start document sets \<^verbatim>\<open>start_uid\<close> and is told to the dependents.\<close>

definition on_start ::
  "from_event_stream \<Rightarrow> document \<Rightarrow> error + from_event_stream \<times> pyval action list" where
  "on_start self x =
     (if fst x = ''start'' then
        (case dict_item (snd x) ''uid'' of
           Inl e \<Rightarrow> Inl e
         | Inr u \<Rightarrow> Inr (self\<lparr>start_uid := u\<rparr>, map (\<lambda>s. CallEmitStart s (doc_val x)) (subs self)))
      else Inr (self, []))"

text \<open>Lines 153 to 157: a descriptor that passes the name filter is recorded.\<close>

definition on_descriptor :: "from_event_stream \<Rightarrow> document \<Rightarrow> error + from_event_stream" where
  "on_descriptor self x =
     (if fst x = ''descriptor'' \<and>
         (event_stream_name self = ALL_DOCS \<or>
          VStr (event_stream_name self) = dict_get (snd x) ''name'' (VStr ''primary''))
      then
        (case dict_item (snd x) ''uid'' of
           Inl e \<Rightarrow> Inl e
         | Inr u \<Rightarrow> Inr (self\<lparr>descriptor_uids := descriptor_uids self @ [u]\<rparr>))
      else Inr self)"

text \<open>Lines 158 to 162: a stop document clears the descriptors and is told to the dependents.\<close>

definition on_stop :: "from_event_stream \<Rightarrow> document \<Rightarrow> from_event_stream \<times> pyval action list" where
  "on_stop self x =
     (if fst x = ''stop'' then
        (self\<lparr>descriptor_uids := []\<rparr>, map (\<lambda>s. CallEmitStop s (doc_val x)) (subs self))
      else (self, []))"

text \<open>
  The condition of lines 164 to 173, evaluated left to right: \<^verbatim>\<open>doc["descriptor"]\<close> is
  read only for an event of the configured type.
\<close>

definition doc_matches :: "from_event_stream \<Rightarrow> document \<Rightarrow> error + bool" where
  "doc_matches self x =
     (if fst x \<noteq> doc_type self then Inr False
      else if fst x = ''descriptor'' \<and>
              VStr (event_stream_name self) = dict_get (snd x) ''name'' (VStr ALL_DOCS)
      then Inr True
      else if fst x = ''event'' then
        (case dict_item (snd x) ''descriptor'' of
           Inl e \<Rightarrow> Inl e
         | Inr d \<Rightarrow> Inr (d \<in> set (descriptor_uids self) \<or> fst x \<in> set [''start'', ''stop'']))
      else Inr (fst x \<in> set [''start'', ''stop'']))"

text \<open>
  \<^verbatim>\<open>SimpleFromEventStream.update\<close>. The result is the node after the call, what the call
  did to the outside, in order, and the exception that ended it, if any (the assignments
  and calls made before the exception have happened).
\<close>

definition update_from ::
  "from_event_stream \<Rightarrow> document \<Rightarrow> from_event_stream \<times> pyval action list \<times> error option" where
  "update_from self x =
     (case on_start self x of
        Inl e \<Rightarrow> (self, [], Some e)
      | Inr (self1, acts1) \<Rightarrow>
          (case on_descriptor self1 x of
             Inl e \<Rightarrow> (self1, acts1, Some e)
           | Inr self2 \<Rightarrow>
               (case on_stop self2 x of
                  (self3, acts3) \<Rightarrow>
                    (case doc_matches self3 x of
                       Inl e \<Rightarrow> (self3, acts1 @ acts3, Some e)
                     | Inr False \<Rightarrow> (self3, acts1 @ acts3, None)
                     | Inr True \<Rightarrow>
                         (case resolve (data_address self3) (VDict (snd x)) of
                            Inl e \<Rightarrow> (self3, acts1 @ acts3, Some e)
                          | Inr None \<Rightarrow> (self3, acts1 @ acts3, None)
                          | Inr (Some v) \<Rightarrow> (self3, acts1 @ acts3 @ [Emit v], None))))))"

section \<open>The reconstruction node: \<^verbatim>\<open>SimpleToEventStream\<close>\<close>

text \<open>
  A value of \<^verbatim>\<open>self.translation_nodes\<close>: a boundary node object, with the two attributes
  that \<^verbatim>\<open>start_doc\<close> reads, as they are at the time of the call.
\<close>

record translation_node =
  uid :: string
  start_uid :: pyval

text \<open>
  The attributes of the node that its methods use. \<open>docgen\<close> is the state that the
  base class \<^verbatim>\<open>CreateDocs\<close> keeps between documents (its own uids and counters).
\<close>

record 'g to_event_stream =
  start_document :: "document option"
  state :: string
  subs :: "ref list"
  uid :: string
  translation_nodes :: "(key \<times> translation_node) list"
  docgen :: 'g

text \<open>
  The methods \<^verbatim>\<open>start_doc\<close>, \<^verbatim>\<open>descriptor\<close>, \<^verbatim>\<open>event\<close> and \<^verbatim>\<open>stop\<close> of \<^verbatim>\<open>CreateDocs\<close>
  (\<^verbatim>\<open>shed.doc_gen\<close>) are missing from the sources. They enter every definition
  below as the parameter \<open>docs\<close>: from the generator's state, the method's name and the
  argument \<open>x\<close> it gives the document body and the generator's next state.
\<close>

type_synonym 'g doc_gen = "'g \<Rightarrow> string \<Rightarrow> pyval \<Rightarrow> pydict \<times> 'g"

text \<open>
  The dict comprehension \<^verbatim>\<open>{v.uid: v.start_uid for ...}\<close> and \<^verbatim>\<open>d.update(e)\<close>: the items
  are assigned one after the other.
\<close>

definition dict_of :: "(string \<times> pyval) list \<Rightarrow> pydict" where
  "dict_of kvs = foldl (\<lambda>d kv. AList.update (fst kv) (snd kv) d) [] kvs"

definition dict_update :: "pydict \<Rightarrow> pydict \<Rightarrow> pydict" where
  "dict_update d e = foldl (\<lambda>d kv. AList.update (fst kv) (snd kv) d) d e"

text \<open>\<^verbatim>\<open>SimpleToEventStream.start_doc\<close> (lines 301 to 318).\<close>

definition start_doc ::
  "'g doc_gen \<Rightarrow> 'g to_event_stream \<Rightarrow> pyval \<Rightarrow> pydict \<times> 'g to_event_stream" where
  "start_doc docs self x =
     (case docs (docgen self) ''start'' x of
        (new_start_doc, g) \<Rightarrow>
          (let new_start_doc = dict_update new_start_doc
                 (dict_of
                   [(''parent_uids'',
                     VList (map (\<lambda>kv. translation_node.start_uid (snd kv))
                             (filter (\<lambda>kv. translation_node.start_uid (snd kv) \<noteq> VNone)
                               (translation_nodes self)))),
                    (''parent_node_map'',
                     VDict (dict_of
                       (map (\<lambda>kv. (translation_node.uid (snd kv),
                                    translation_node.start_uid (snd kv)))
                         (filter (\<lambda>kv. translation_node.start_uid (snd kv) \<noteq> VNone)
                           (translation_nodes self)))))])
           in (new_start_doc,
               self\<lparr>docgen := g, start_document := Some (''start'', new_start_doc)\<rparr>)))"

text \<open>
  Modelled from the spec: \<^verbatim>\<open>CreateDocs.create_doc\<close> (\<^verbatim>\<open>shed.doc_gen\<close>) is missing from
  the sources. The spec has the node build each document body "via the schema generator"
  and emit it under its type, the start body with the provenance fields of
  \<^verbatim>\<open>start_doc\<close>: so \<open>create_doc name x\<close> is the pair of \<open>name\<close> and the body that the
  method of that name builds, which for a start is the node's own \<^verbatim>\<open>start_doc\<close>.
\<close>

definition create_doc ::
  "'g doc_gen \<Rightarrow> 'g to_event_stream \<Rightarrow> string \<Rightarrow> pyval \<Rightarrow> document \<times> 'g to_event_stream" where
  "create_doc docs self name x =
     (if name = ''start'' then
        (case start_doc docs self x of (body, self') \<Rightarrow> ((name, body), self'))
      else
        (case docs (docgen self) name x of (body, g) \<Rightarrow> ((name, body), self\<lparr>docgen := g\<rparr>)))"

text \<open>\<^verbatim>\<open>SimpleToEventStream.emit_stop\<close> (lines 284 to 289).\<close>

definition emit_stop ::
  "'g doc_gen \<Rightarrow> 'g to_event_stream \<Rightarrow> pyval \<Rightarrow> 'g to_event_stream \<times> document action list" where
  "emit_stop docs self x =
     (case create_doc docs self ''stop'' x of
        (stop, self1) \<Rightarrow>
          (self1\<lparr>state := ''stopped''\<rparr>,
           [Emit stop] @ map (\<lambda>s. CallEmitStop s x) (subs self1)))"

text \<open>\<^verbatim>\<open>SimpleToEventStream.emit_start\<close> (lines 274 to 282).\<close>

definition emit_start ::
  "'g doc_gen \<Rightarrow> 'g to_event_stream \<Rightarrow> pyval \<Rightarrow> 'g to_event_stream \<times> document action list" where
  "emit_start docs self x =
     (case (if state self \<noteq> ''stopped'' then emit_stop docs self x else (self, [])) of
        (self1, acts1) \<Rightarrow>
          (case create_doc docs self1 ''start'' x of
             (start, self2) \<Rightarrow>
               (self2\<lparr>state := ''started'', start_document := None\<rparr>,
                acts1 @ [Emit start] @ map (\<lambda>s. CallEmitStart s x) (subs self2))))"

text \<open>\<^verbatim>\<open>SimpleToEventStream.update\<close> (lines 291 to 299).\<close>

definition update_to ::
  "'g doc_gen \<Rightarrow> 'g to_event_stream \<Rightarrow> pyval \<Rightarrow> 'g to_event_stream \<times> document action list" where
  "update_to docs self x =
     (case (if state self = ''started'' then
              (case create_doc docs self ''descriptor'' x of
                 (descriptor, self1) \<Rightarrow> (self1\<lparr>state := ''described''\<rparr>, [Emit descriptor]))
            else (self, [])) of
        (self2, acts2) \<Rightarrow>
          (case create_doc docs self2 ''event'' x of
             (event, self3) \<Rightarrow> (self3, acts2 @ [Emit event])))"

text \<open>
  The calls that reach a reconstruction node: \<^verbatim>\<open>emit_start\<close> and \<^verbatim>\<open>emit_stop\<close> from the
  nodes it subscribed to, \<^verbatim>\<open>update\<close> from its upstream. \<open>run\<close> makes them one after the
  other and collects what the node does, in order.
\<close>

datatype call = EmitStart pyval | EmitStop pyval | Update pyval

fun call_to ::
  "'g doc_gen \<Rightarrow> 'g to_event_stream \<Rightarrow> call \<Rightarrow> 'g to_event_stream \<times> document action list" where
  "call_to docs self (EmitStart x) = emit_start docs self x"
| "call_to docs self (EmitStop x) = emit_stop docs self x"
| "call_to docs self (Update x) = update_to docs self x"

fun run ::
  "'g doc_gen \<Rightarrow> 'g to_event_stream \<Rightarrow> call list \<Rightarrow> 'g to_event_stream \<times> document action list" where
  "run docs self [] = (self, [])"
| "run docs self (c # cs) =
     (case call_to docs self c of
        (self1, acts1) \<Rightarrow>
          (case run docs self1 cs of (self2, acts2) \<Rightarrow> (self2, acts1 @ acts2)))"

text \<open>
  The example of the class docstring: an extraction node \<^verbatim>\<open>s2\<close> whose only downstream is
  the reconstruction node \<^verbatim>\<open>s3 = ToEventStream(s2, ...)\<close>, stored under the reference \<open>r\<close>.
  A value that \<^verbatim>\<open>s2\<close> emits is the argument of \<^verbatim>\<open>s3.update\<close>, and the calls that \<^verbatim>\<open>s2\<close>
  makes on its dependent \<open>r\<close> are calls on \<^verbatim>\<open>s3\<close>.
\<close>

fun calls_of :: "ref \<Rightarrow> pyval action list \<Rightarrow> call list" where
  "calls_of r [] = []"
| "calls_of r (Emit v # as) = Update v # calls_of r as"
| "calls_of r (CallEmitStart s x # as) =
     (if s = r then EmitStart x # calls_of r as else calls_of r as)"
| "calls_of r (CallEmitStop s x # as) =
     (if s = r then EmitStop x # calls_of r as else calls_of r as)"

text \<open>
  \<open>feed\<close> gives the documents to \<^verbatim>\<open>s2.update\<close> one after the other, until one raises.
  \<^verbatim>\<open>s2\<close> is the boundary node of \<^verbatim>\<open>s3\<close>, which reads its attributes as they are during the
  call. The result is the two nodes, the documents that \<^verbatim>\<open>s3\<close> emitted, and the exception.
\<close>

fun feed ::
  "'g doc_gen \<Rightarrow> ref \<Rightarrow> from_event_stream \<times> 'g to_event_stream \<Rightarrow> document list \<Rightarrow>
   (from_event_stream \<times> 'g to_event_stream) \<times> document list \<times> error option" where
  "feed docs r (s2, s3) [] = ((s2, s3), [], None)"
| "feed docs r (s2, s3) (x # xs) =
     (case update_from s2 x of
        (s2', acts, err) \<Rightarrow>
          (case run docs
                  (s3\<lparr>translation_nodes :=
                        [(Uid (from_event_stream.uid s2'),
                          \<lparr>translation_node.uid = from_event_stream.uid s2',
                           start_uid = from_event_stream.start_uid s2'\<rparr>)]\<rparr>)
                  (calls_of r acts) of
             (s3', acts') \<Rightarrow>
               (case err of
                  Some e \<Rightarrow> ((s2', s3'), emitted acts', Some e)
                | None \<Rightarrow>
                    (case feed docs r (s2', s3') xs of
                       (nodes, out, err') \<Rightarrow> (nodes, emitted acts' @ out, err')))))"

section \<open>The alignment node: \<^verbatim>\<open>AlignEventStreams._emit\<close>\<close>

text \<open>The slices \<^verbatim>\<open>x[::2]\<close> and \<^verbatim>\<open>x[1::2]\<close>.\<close>

fun slice_even :: "'a list \<Rightarrow> 'a list" where
  "slice_even [] = []"
| "slice_even [a] = [a]"
| "slice_even (a # b # xs) = a # slice_even xs"

fun slice_odd :: "'a list \<Rightarrow> 'a list" where
  "slice_odd [] = []"
| "slice_odd [a] = []"
| "slice_odd (a # b # xs) = b # slice_odd xs"

text \<open>
  Modelled from the spec: \<^verbatim>\<open>ChainDB\<close> and \<^verbatim>\<open>_convert_to_dict\<close> (\<^verbatim>\<open>regolith.chained_db\<close>) are
  missing from the sources. The spec describes them as the deep merge: "given an ordered
  list of mapping bodies, produce one mapping where later entries override earlier ones on
  key collision, recursively for nested mappings", "non-mapping values are replaced
  outright". \<open>deep_merge a b\<close> merges the later body \<open>b\<close> into \<open>a\<close>. The spec gives the
  merge for mappings only; an argument that is no mapping is a \<open>TypeError\<close> here.
\<close>

fun deep_merge :: "pydict \<Rightarrow> pydict \<Rightarrow> pydict" where
  "deep_merge a [] = a"
| "deep_merge a ((k, v) # b) =
     deep_merge
       (AList.update k
          (case map_of a k of
             Some (VDict da) \<Rightarrow> (case v of VDict db \<Rightarrow> VDict (deep_merge da db) | _ \<Rightarrow> v)
           | _ \<Rightarrow> v) a) b"

fun mapping_bodies :: "pyval list \<Rightarrow> error + pydict list" where
  "mapping_bodies [] = Inr []"
| "mapping_bodies (VDict d # vs) =
     (case mapping_bodies vs of Inl e \<Rightarrow> Inl e | Inr ds \<Rightarrow> Inr (d # ds))"
| "mapping_bodies (v # vs) = Inl TypeError"

definition convert_to_dict_ChainDB :: "pyval list \<Rightarrow> error + pydict" where
  "convert_to_dict_ChainDB docs =
     (case mapping_bodies docs of
        Inl e \<Rightarrow> Inl e
      | Inr ds \<Rightarrow> Inr (foldl deep_merge [] ds))"

text \<open>
  \<^verbatim>\<open>AlignEventStreams._emit\<close> (lines 347 to 352): \<open>x\<close> is the tuple of the popped
  \<^verbatim>\<open>(name, doc)\<close> pairs. The result is the document handed to \<^verbatim>\<open>super()._emit\<close>;
  \<^verbatim>\<open>names[0]\<close> raises when nothing was popped.
\<close>

definition emit_align :: "pyval list list \<Rightarrow> error + pyval \<times> pydict" where
  "emit_align x =
     (let x = concat x;
          names = slice_even x;
          docs = slice_odd x
      in case names of
           [] \<Rightarrow> Inl IndexError
         | name0 # _ \<Rightarrow>
             (case convert_to_dict_ChainDB docs of
                Inl e \<Rightarrow> Inl e
              | Inr body \<Rightarrow> Inr (name0, body)))"

section \<open>The graph walk and the construction of a reconstruction node\<close>

text \<open>
  The dataflow graph is a store of node objects; a reference is an index into it, and an
  index outside the store stands for no object (it is read like \<^verbatim>\<open>None\<close>). Of a node the
  walk and \<^verbatim>\<open>__init__\<close> read its class, the attributes \<^verbatim>\<open>uid\<close> (absent on a plain
  \<^verbatim>\<open>Stream\<close>) and \<^verbatim>\<open>principle\<close> (\<^verbatim>\<open>getattr(n, "principle", False)\<close>), and the lists
  \<^verbatim>\<open>upstreams\<close> (which may hold \<^verbatim>\<open>None\<close>), \<^verbatim>\<open>downstreams\<close> and \<^verbatim>\<open>subs\<close>.
\<close>

datatype kind = Stream | SimpleFromEventStream | SimpleToEventStream

record stream =
  kind :: kind
  uid :: "string option"
  principle :: bool
  upstreams :: "ref option list"
  downstreams :: "ref list"
  subs :: "ref list"

type_synonym store = "stream list"

definition live :: "store \<Rightarrow> ref option \<Rightarrow> ref option" where
  "live s r = (case r of None \<Rightarrow> None | Some n \<Rightarrow> if n < length s then Some n else None)"

text \<open>\<^verbatim>\<open>_hash_or_uid\<close>; the hash of an object without \<^verbatim>\<open>uid\<close> is its identity.\<close>

definition hash_or_uid :: "store \<Rightarrow> ref \<Rightarrow> key" where
  "hash_or_uid s node = (case uid (s ! node) of Some u \<Rightarrow> Uid u | None \<Rightarrow> Hash node)"

text \<open>
  The \<^verbatim>\<open>networkx.DiGraph\<close>: its nodes in insertion order, each with its attribute
  \<^verbatim>\<open>stream\<close> (\<open>None\<close> for a node that \<^verbatim>\<open>add_edge\<close> created without attributes), and its
  directed edges.
\<close>

record digraph =
  nodes :: "(key \<times> ref option) list"
  edges :: "(key \<times> key) list"

definition DiGraph :: digraph where
  "DiGraph = \<lparr>nodes = [], edges = []\<rparr>"

definition add_node :: "digraph \<Rightarrow> key \<Rightarrow> ref \<Rightarrow> digraph" where
  "add_node g n r = g\<lparr>nodes := AList.update n (Some r) (nodes g)\<rparr>"

definition ensure_node :: "key \<Rightarrow> (key \<times> ref option) list \<Rightarrow> (key \<times> ref option) list" where
  "ensure_node n ns = (if n \<in> fst ` set ns then ns else ns @ [(n, None)])"

definition add_edge :: "digraph \<Rightarrow> key \<Rightarrow> key \<Rightarrow> digraph" where
  "add_edge g u v =
     g\<lparr>nodes := ensure_node v (ensure_node u (nodes g)),
       edges := List.insert (u, v) (edges g)\<rparr>"

definition has_edge :: "digraph \<Rightarrow> key \<Rightarrow> key \<Rightarrow> bool" where
  "has_edge g u v = ((u, v) \<in> set (edges g))"

definition in_graph :: "key \<Rightarrow> digraph \<Rightarrow> bool" where
  "in_graph n g = (n \<in> fst ` set (nodes g))"

text \<open>
  \<open>Walk node prior_node\<close> is the call \<^verbatim>\<open>walk_to_translation(node, graph, prior_node)\<close>;
  \<open>Upstreams rest node\<close> is what is left of its loop \<^verbatim>\<open>for node2 in node.upstreams\<close>.
\<close>

datatype task = Walk "ref option" "ref option" | Upstreams "ref option list" ref

text \<open>
  \<^verbatim>\<open>walk_to_translation\<close> (lines 24 to 67), with the graph it mutates passed through. The
  result \<open>None\<close> is a walk that does not return. The loop over \<^verbatim>\<open>node.downstreams\<close> returns
  at the first reconstruction node that is not yet in the graph, which \<open>find\<close> looks up.
\<close>

partial_function (option) walk_to_translation ::
  "store \<Rightarrow> digraph \<Rightarrow> task \<Rightarrow> digraph option" where
  "walk_to_translation s graph task =
     (case task of
        Upstreams [] node \<Rightarrow> Some graph
      | Upstreams (node2 # rest) node \<Rightarrow>
          (case node2 of
             None \<Rightarrow> walk_to_translation s graph (Upstreams rest node)
           | Some n2 \<Rightarrow>
               Option.bind (walk_to_translation s graph (Walk (Some n2) (Some node)))
                 (\<lambda>graph. walk_to_translation s graph (Upstreams rest node)))
      | Walk node0 prior_node \<Rightarrow>
          (case live s node0 of
             None \<Rightarrow> Some graph
           | Some node \<Rightarrow>
               (let t = hash_or_uid s node;
                    graph = add_node graph t node
                in case live s prior_node of
                     None \<Rightarrow> walk_to_translation s graph (Upstreams (upstreams (s ! node)) node)
                   | Some prior \<Rightarrow>
                       (let tt = hash_or_uid s prior
                        in if has_edge graph t tt then Some graph
                           else
                             (let graph = add_edge graph t tt
                              in if kind (s ! node) = SimpleFromEventStream then Some graph
                                 else
                                   (case find (\<lambda>downstream. downstream < length s \<and>
                                                 kind (s ! downstream) = SimpleToEventStream \<and>
                                                 \<not> in_graph (hash_or_uid s downstream) graph)
                                           (downstreams (s ! node)) of
                                      Some downstream \<Rightarrow>
                                        Some (add_edge
                                               (add_node graph (hash_or_uid s downstream) downstream)
                                               t (hash_or_uid s downstream))
                                    | None \<Rightarrow>
                                        walk_to_translation s graph
                                          (Upstreams (upstreams (s ! node)) node)))))))"

declare walk_to_translation.simps [code]

text \<open>
  The dict comprehension of lines 255 to 262: \<^verbatim>\<open>n["stream"]\<close> raises on a node without
  the attribute; a node is kept when it is an extraction or a reconstruction node other
  than \<^verbatim>\<open>self\<close>. The third argument is the dict built so far.
\<close>

fun translation_nodes_of ::
  "store \<Rightarrow> ref \<Rightarrow> (key \<times> ref) list \<Rightarrow> (key \<times> ref option) list \<Rightarrow> error + (key \<times> ref) list" where
  "translation_nodes_of s self tn [] = Inr tn"
| "translation_nodes_of s self tn ((k, None) # items) = Inl KeyError"
| "translation_nodes_of s self tn ((k, Some n) # items) =
     translation_nodes_of s self
       (if n < length s \<and>
           kind (s ! n) \<in> {SimpleFromEventStream, SimpleToEventStream} \<and> n \<noteq> self
        then AList.update k n tn else tn)
       items"

text \<open>The list comprehension of lines 263 to 268.\<close>

definition principle_nodes_of :: "store \<Rightarrow> (key \<times> ref) list \<Rightarrow> ref list" where
  "principle_nodes_of s tn =
     map snd (filter (\<lambda>kn. principle (s ! snd kn) \<or> kind (s ! snd kn) = SimpleToEventStream) tn)"

text \<open>\<^verbatim>\<open>for p in self.principle_nodes: p.subs.append(self)\<close>.\<close>

fun subs_append :: "store \<Rightarrow> ref list \<Rightarrow> ref \<Rightarrow> store" where
  "subs_append s [] self = s"
| "subs_append s (p # ps) self =
     subs_append (s[p := (s ! p)\<lparr>subs := subs (s ! p) @ [self]\<rparr>]) ps self"

text \<open>
  \<^verbatim>\<open>SimpleToEventStream.__init__\<close> from the walk on (lines 252 to 272), for the node \<open>self\<close>
  that the base class has already linked to its upstreams. The result is \<open>None\<close> when the
  walk does not return, the exception, or the store after the registration together with
  \<^verbatim>\<open>self.translation_nodes\<close> and \<^verbatim>\<open>self.principle_nodes\<close>.
\<close>

definition init_to ::
  "store \<Rightarrow> ref \<Rightarrow> (error + store \<times> (key \<times> ref) list \<times> ref list) option" where
  "init_to s self =
     (case walk_to_translation s DiGraph (Walk (Some self) None) of
        None \<Rightarrow> None
      | Some graph \<Rightarrow>
          Some (case translation_nodes_of s self [] (nodes graph) of
                  Inl e \<Rightarrow> Inl e
                | Inr tn \<Rightarrow>
                    (let pn = principle_nodes_of s tn
                     in if pn = [] then Inl RuntimeError
                        else Inr (subs_append s pn self, tn, pn))))"

section \<open>Notions used in the statements\<close>

text \<open>
  The transitions of the class docstring of \<^verbatim>\<open>SimpleToEventStream\<close>, as a check of a
  sequence of emitted document names from a given state of the node: a start only when
  stopped, a descriptor only right after a start, an event anywhere but right after a
  start, a stop anywhere. \<open>state_after\<close> is the state that the names lead to.
\<close>

fun session_ok :: "string \<Rightarrow> string list \<Rightarrow> bool" where
  "session_ok st [] = True"
| "session_ok st (n # ns) =
     (if n = ''start'' then st = ''stopped'' \<and> session_ok ''started'' ns
      else if n = ''stop'' then session_ok ''stopped'' ns
      else if n = ''descriptor'' then st = ''started'' \<and> session_ok ''described'' ns
      else if n = ''event'' then st \<noteq> ''started'' \<and> session_ok st ns
      else False)"

fun state_after :: "string \<Rightarrow> string list \<Rightarrow> string" where
  "state_after st [] = st"
| "state_after st (n # ns) =
     state_after
       (if n = ''start'' then ''started''
        else if n = ''stop'' then ''stopped''
        else if n = ''descriptor'' then ''described''
        else st) ns"

text \<open>The boundary nodes that have begun a session: their \<^verbatim>\<open>start_uid\<close> is not \<^verbatim>\<open>None\<close>.\<close>

definition started_nodes :: "'g to_event_stream \<Rightarrow> translation_node list" where
  "started_nodes self =
     filter (\<lambda>v. translation_node.start_uid v \<noteq> VNone) (map snd (translation_nodes self))"

text \<open>
  The measure of the walk. \<open>keys_of\<close> are the identities of the nodes of the store; the
  \<open>deficit\<close> of a graph is the number of edges between them that it does not have yet.
  Every call that goes on upstream has added such an edge. \<open>rank\<close> orders the tasks that
  work on the same graph.
\<close>

definition keys_of :: "store \<Rightarrow> key set" where
  "keys_of s = hash_or_uid s ` {..<length s}"

definition deficit :: "store \<Rightarrow> digraph \<Rightarrow> nat" where
  "deficit s g = card ((keys_of s \<times> keys_of s) - set (edges g))"

fun rank :: "store \<Rightarrow> task \<Rightarrow> nat" where
  "rank s (Walk node prior_node) =
     (case live s prior_node of
        Some p \<Rightarrow> 0
      | None \<Rightarrow> (case live s node of None \<Rightarrow> 0 | Some n \<Rightarrow> 2 + length (upstreams (s ! n))))"
| "rank s (Upstreams rest node) = 1 + length rest"

text \<open>
  What holds of the graph during a walk that \<^verbatim>\<open>__init__\<close> starts: every node has its
  attribute \<^verbatim>\<open>stream\<close>, which is a node of the store, and the node that the walk comes
  from is in the graph.
\<close>

definition attrs_ok :: "store \<Rightarrow> (key \<times> ref option) list \<Rightarrow> bool" where
  "attrs_ok s ns =
     (distinct (map fst ns) \<and> (\<forall>ka\<in>set ns. \<exists>r. snd ka = Some r \<and> r < length s))"

fun task_ok :: "store \<Rightarrow> digraph \<Rightarrow> task \<Rightarrow> bool" where
  "task_ok s g (Walk node prior_node) =
     (case live s prior_node of None \<Rightarrow> True | Some p \<Rightarrow> in_graph (hash_or_uid s p) g)"
| "task_ok s g (Upstreams rest node) = (node < length s \<and> in_graph (hash_or_uid s node) g)"

text \<open>
  A boundary node of \<open>self\<close>: an extraction node or a reconstruction node other than
  \<open>self\<close>.
\<close>

definition boundary :: "store \<Rightarrow> ref \<Rightarrow> ref \<Rightarrow> bool" where
  "boundary s self n =
     (n < length s \<and> kind (s ! n) \<in> {SimpleFromEventStream, SimpleToEventStream} \<and> n \<noteq> self)"

text \<open>
  Two dataflow graphs. In both, node 0 is the reconstruction node under construction and
  node 1 is a plain node upstream of it. In \<open>cyclic_store\<close> the plain nodes 1 and 2 are
  upstream of each other. In \<open>pipeline_store\<close> node 2 is a principal extraction node.
\<close>

definition cyclic_store :: store where
  "cyclic_store =
     [\<lparr>kind = SimpleToEventStream, uid = Some ''r'', principle = False,
        upstreams = [Some 1], downstreams = [], subs = []\<rparr>,
      \<lparr>kind = Stream, uid = None, principle = False,
        upstreams = [Some 2], downstreams = [0, 2], subs = []\<rparr>,
      \<lparr>kind = Stream, uid = None, principle = False,
        upstreams = [Some 1], downstreams = [1], subs = []\<rparr>]"

definition pipeline_store :: store where
  "pipeline_store =
     [\<lparr>kind = SimpleToEventStream, uid = Some ''r'', principle = False,
        upstreams = [Some 1], downstreams = [], subs = []\<rparr>,
      \<lparr>kind = Stream, uid = None, principle = False,
        upstreams = [Some 2], downstreams = [0], subs = []\<rparr>,
      \<lparr>kind = SimpleFromEventStream, uid = Some ''e'', principle = True,
        upstreams = [None], downstreams = [1], subs = []\<rparr>]"

section \<open>Properties of the extraction node\<close>

text \<open>
  C3. The claim: an extraction node configured for descriptors with the wildcard
  \<^verbatim>\<open>ALL\<close> emits the resolved value for every descriptor, whatever name the descriptor
  declares. The code does not: line 167 compares the configured name with
  \<^verbatim>\<open>doc.get("name", ALL)\<close>, so under the wildcard only a descriptor without a name passes.
  A descriptor named \<^verbatim>\<open>primary\<close> is recorded in \<^verbatim>\<open>descriptor_uids\<close> (line 154 does honour
  the wildcard) and nothing is emitted.
\<close>

theorem update_from_wildcard_named_descriptor:
  "update_from
     \<lparr>from_event_stream.principle = False, doc_type = ''descriptor'', data_address = [],
       event_stream_name = ALL_DOCS, uid = ''n1'', descriptor_uids = [], subs = [],
       start_uid = VNone\<rparr>
     (''descriptor'', [(''uid'', VStr ''d1''), (''name'', VStr ''primary'')]) =
   (\<lparr>from_event_stream.principle = False, doc_type = ''descriptor'', data_address = [],
       event_stream_name = ALL_DOCS, uid = ''n1'', descriptor_uids = [VStr ''d1''], subs = [],
       start_uid = VNone\<rparr>, [], None)"
  by (simp add: update_from_def on_start_def on_descriptor_def on_stop_def doc_matches_def
      dict_item_def dict_get_def ALL_DOCS_def)

text \<open>
  C4. The claim: when a key of the address is missing from the document, also a key inside
  a tuple component, the node emits nothing and raises nothing. For a plain key the code
  tests \<^verbatim>\<open>da in inner\<close> and returns; for a tuple component line 180 indexes without a
  test, and the missing key raises \<^verbatim>\<open>KeyError\<close> out of \<^verbatim>\<open>update\<close>.
\<close>

theorem update_from_tuple_key_missing:
  "update_from
     \<lparr>from_event_stream.principle = False, doc_type = ''start'',
       data_address = [Keys [''a'', ''b'']], event_stream_name = ALL_DOCS, uid = ''n1'',
       descriptor_uids = [], subs = [], start_uid = VNone\<rparr>
     (''start'', [(''uid'', VStr ''u1''), (''a'', VInt 1)]) =
   (\<lparr>from_event_stream.principle = False, doc_type = ''start'',
       data_address = [Keys [''a'', ''b'']], event_stream_name = ALL_DOCS, uid = ''n1'',
       descriptor_uids = [], subs = [], start_uid = VStr ''u1''\<rparr>, [], Some KeyError)"
  by (simp add: update_from_def on_start_def on_descriptor_def on_stop_def doc_matches_def
      dict_item_def dict_get_def)

text \<open>
  What one call of \<^verbatim>\<open>update\<close> does to the outside is a block of calls on the dependents,
  followed by at most one emission.
\<close>

lemma update_from_actions_shape:
  "\<exists>ns es. fst (snd (update_from self x)) = ns @ es \<and> (\<forall>a\<in>set ns. \<not> is_emit a) \<and>
      (es = [] \<or> (\<exists>v. es = [Emit v]))"
proof -
  have s: "\<forall>a\<in>set (snd p). \<not> is_emit a" if "on_start self x = Inr p" for p
    using that by (auto simp: on_start_def split: if_splits sum.splits)
  have t: "\<forall>a\<in>set (snd (on_stop self' x)). \<not> is_emit a" for self'
    by (auto simp: on_stop_def)
  show ?thesis
  proof (cases "on_start self x")
    case (Inl e)
    then show ?thesis by (simp add: update_from_def)
  next
    case (Inr p)
    obtain self1 acts1 where p: "p = (self1, acts1)" by (cases p)
    have a1: "\<forall>a\<in>set acts1. \<not> is_emit a" using s[OF Inr] p by simp
    show ?thesis
    proof (cases "on_descriptor self1 x")
      case (Inl e)
      then have "fst (snd (update_from self x)) = acts1 @ []"
        using Inr p by (simp add: update_from_def)
      then show ?thesis using a1 by blast
    next
      case r2: (Inr self2)
      obtain self3 acts3 where q: "on_stop self2 x = (self3, acts3)" by (cases "on_stop self2 x")
      have a3: "\<forall>a\<in>set acts3. \<not> is_emit a" using t[of self2] q by simp
      have a13: "\<forall>a\<in>set (acts1 @ acts3). \<not> is_emit a" using a1 a3 by auto
      have "fst (snd (update_from self x)) = acts1 @ acts3 \<or>
            (\<exists>v. fst (snd (update_from self x)) = (acts1 @ acts3) @ [Emit v])"
        using Inr p r2 q
        by (auto simp: update_from_def split: sum.splits bool.splits option.splits)
      then show ?thesis
      proof
        assume "fst (snd (update_from self x)) = acts1 @ acts3"
        then show ?thesis using a13 by (intro exI[of _ "acts1 @ acts3"] exI[of _ "[]"]) simp
      next
        assume "\<exists>v. fst (snd (update_from self x)) = (acts1 @ acts3) @ [Emit v]"
        then obtain v where "fst (snd (update_from self x)) = (acts1 @ acts3) @ [Emit v]" ..
        then show ?thesis using a13
          by (intro exI[of _ "acts1 @ acts3"] exI[of _ "[Emit v]"]) simp
      qed
    qed
  qed
qed

text \<open>
  C9. Within one call of \<^verbatim>\<open>update\<close> of an extraction node, every call of \<^verbatim>\<open>emit_start\<close>
  or \<^verbatim>\<open>emit_stop\<close> on a dependent comes before the node's own emission: in the sequence of
  what the call does, a position that holds a call on a dependent is smaller than a
  position that holds an emission.
\<close>

theorem update_from_calls_before_emit:
  assumes "i < length (fst (snd (update_from self x)))"
    and "j < length (fst (snd (update_from self x)))"
    and "\<not> is_emit (fst (snd (update_from self x)) ! i)"
    and "is_emit (fst (snd (update_from self x)) ! j)"
  shows "i < j"
proof -
  obtain ns es where sh: "fst (snd (update_from self x)) = ns @ es"
    "\<forall>a\<in>set ns. \<not> is_emit a" "es = [] \<or> (\<exists>v. es = [Emit v])"
    using update_from_actions_shape by blast
  have i: "i < length ns"
  proof (rule ccontr)
    assume "\<not> i < length ns"
    then have "(ns @ es) ! i = es ! (i - length ns)" "i - length ns < length es"
      using assms(1) sh(1) by (auto simp: nth_append)
    then have "is_emit ((ns @ es) ! i)" using sh(3) by auto
    then show False using assms(3) sh(1) by simp
  qed
  have j: "\<not> j < length ns"
  proof
    assume "j < length ns"
    then have "(ns @ es) ! j \<in> set ns" by (simp add: nth_append)
    then show False using sh(2) assms(4) sh(1) by auto
  qed
  from i j show ?thesis by simp
qed

theorem update_from_calls_before_emit_witness:
  "0 < length (fst (snd (update_from
      \<lparr>from_event_stream.principle = True, doc_type = ''start'', data_address = [Key ''uid''],
        event_stream_name = ALL_DOCS, uid = ''n1'', descriptor_uids = [], subs = [7],
        start_uid = VNone\<rparr>
      (''start'', [(''uid'', VStr ''u1'')])))) \<and>
   1 < length (fst (snd (update_from
      \<lparr>from_event_stream.principle = True, doc_type = ''start'', data_address = [Key ''uid''],
        event_stream_name = ALL_DOCS, uid = ''n1'', descriptor_uids = [], subs = [7],
        start_uid = VNone\<rparr>
      (''start'', [(''uid'', VStr ''u1'')])))) \<and>
   \<not> is_emit (fst (snd (update_from
      \<lparr>from_event_stream.principle = True, doc_type = ''start'', data_address = [Key ''uid''],
        event_stream_name = ALL_DOCS, uid = ''n1'', descriptor_uids = [], subs = [7],
        start_uid = VNone\<rparr>
      (''start'', [(''uid'', VStr ''u1'')]))) ! 0) \<and>
   is_emit (fst (snd (update_from
      \<lparr>from_event_stream.principle = True, doc_type = ''start'', data_address = [Key ''uid''],
        event_stream_name = ALL_DOCS, uid = ''n1'', descriptor_uids = [], subs = [7],
        start_uid = VNone\<rparr>
      (''start'', [(''uid'', VStr ''u1'')]))) ! 1) \<and>
   (0::nat) < 1"
proof -
  let ?acts = "fst (snd (update_from
      \<lparr>from_event_stream.principle = True, doc_type = ''start'', data_address = [Key ''uid''],
        event_stream_name = ALL_DOCS, uid = ''n1'', descriptor_uids = [], subs = [7],
        start_uid = VNone\<rparr>
      (''start'', [(''uid'', VStr ''u1'')])))"
  have e: "?acts =
     [CallEmitStart 7 (doc_val (''start'', [(''uid'', VStr ''u1'')])), Emit (VStr ''u1'')]"
    by (simp add: update_from_def on_start_def on_descriptor_def on_stop_def doc_matches_def
        dict_item_def dict_get_def)
  have h: "0 < length ?acts" "1 < length ?acts" "\<not> is_emit (?acts ! 0)" "is_emit (?acts ! 1)"
    by (simp_all add: e)
  from update_from_calls_before_emit [OF h] h show ?thesis by blast
qed

section \<open>Properties of the reconstruction node\<close>

lemma create_doc_name [simp]: "fst (fst (create_doc docs self name x)) = name"
  by (simp add: create_doc_def split: prod.splits)

lemma create_doc_state [simp]: "state (snd (create_doc docs self name x)) = state self"
  by (simp add: create_doc_def start_doc_def Let_def split: prod.splits)

lemma create_doc_subs [simp]: "to_event_stream.subs (snd (create_doc docs self name x)) = to_event_stream.subs self"
  by (simp add: create_doc_def start_doc_def Let_def split: prod.splits)

lemma emitted_append [simp]: "emitted (as @ bs) = emitted as @ emitted bs"
  by (induction as rule: emitted.induct) simp_all

lemma emitted_calls_start [simp]: "emitted (map (\<lambda>s. CallEmitStart s x) ss) = []"
  by (induction ss) simp_all

lemma emitted_calls_stop [simp]: "emitted (map (\<lambda>s. CallEmitStop s x) ss) = []"
  by (induction ss) simp_all

lemma emit_stop_emitted:
  "emitted (snd (emit_stop docs self x)) = [fst (create_doc docs self ''stop'' x)]"
  by (simp add: emit_stop_def split_beta)

lemma emit_stop_state: "state (fst (emit_stop docs self x)) = ''stopped''"
  by (simp add: emit_stop_def split_beta)

lemma emit_start_emitted:
  "emitted (snd (emit_start docs self x)) =
     (if state self \<noteq> ''stopped'' then [fst (create_doc docs self ''stop'' x)] else []) @
     [fst (create_doc docs
            (if state self \<noteq> ''stopped'' then fst (emit_stop docs self x) else self) ''start'' x)]"
  by (simp add: emit_start_def split_beta emit_stop_emitted)

lemma emit_start_state: "state (fst (emit_start docs self x)) = ''started''"
  by (simp add: emit_start_def split_beta)

lemma update_to_emitted:
  "emitted (snd (update_to docs self x)) =
     (if state self = ''started'' then [fst (create_doc docs self ''descriptor'' x)] else []) @
     [fst (create_doc docs
            (if state self = ''started''
             then (snd (create_doc docs self ''descriptor'' x))\<lparr>state := ''described''\<rparr>
             else self) ''event'' x)]"
  by (simp add: update_to_def split_beta)

lemma update_to_state:
  "state (fst (update_to docs self x)) =
     (if state self = ''started'' then ''described'' else state self)"
  by (simp add: update_to_def split_beta)

lemma emit_stop_names: "map fst (emitted (snd (emit_stop docs self x))) = [''stop'']"
  by (simp add: emit_stop_emitted)

lemma emit_start_names:
  "map fst (emitted (snd (emit_start docs self x))) =
     (if state self \<noteq> ''stopped'' then [''stop''] else []) @ [''start'']"
  by (simp add: emit_start_emitted)

lemma update_to_names:
  "map fst (emitted (snd (update_to docs self x))) =
     (if state self = ''started'' then [''descriptor''] else []) @ [''event'']"
  by (simp add: update_to_emitted)

text \<open>
  C10. A payload that arrives while the node is stopped: \<^verbatim>\<open>update\<close> emits one event
  document and no descriptor, and the node stays stopped.
\<close>

theorem update_to_while_stopped:
  assumes "state self = ''stopped''"
  shows "map fst (emitted (snd (update_to docs self x))) = [''event''] \<and>
         state (fst (update_to docs self x)) = ''stopped''"
  using assms by (simp add: update_to_names update_to_state)


theorem update_to_while_stopped_witness:
  "state \<lparr>start_document = None, state = ''stopped'', subs = [], uid = ''n2'',
           translation_nodes = [], docgen = ()\<rparr> = ''stopped'' \<and>
   map fst (emitted (snd (update_to (\<lambda>g name x. ([], g))
      \<lparr>start_document = None, state = ''stopped'', subs = [], uid = ''n2'',
        translation_nodes = [], docgen = ()\<rparr> (VInt 1)))) = [''event''] \<and>
   state (fst (update_to (\<lambda>g name x. ([], g))
      \<lparr>start_document = None, state = ''stopped'', subs = [], uid = ''n2'',
        translation_nodes = [], docgen = ()\<rparr> (VInt 1))) = ''stopped''"
  using update_to_while_stopped [of
      "\<lparr>start_document = None, state = ''stopped'', subs = [], uid = ''n2'',
        translation_nodes = [], docgen = ()\<rparr>" "\<lambda>g name x. ([], g)" "VInt 1"]
  by simp

text \<open>
  C2. A call of \<^verbatim>\<open>emit_start\<close> on a node that is not stopped emits a stop document and
  then the start document, and raises nothing; so two calls of \<^verbatim>\<open>emit_start\<close> in a row on
  a stopped node emit a start, a stop and a start.
\<close>

theorem emit_start_emergency_stop:
  assumes "state self \<noteq> ''stopped''" and "state self' = ''stopped''"
  shows "map fst (emitted (snd (emit_start docs self x))) = [''stop'', ''start''] \<and>
         map fst (emitted (snd (run docs self' [EmitStart x1, EmitStart x2]))) =
           [''start'', ''stop'', ''start'']"
  using assms
  by (simp add: emit_start_names emit_start_state split_beta)

theorem emit_start_emergency_stop_witness:
  "state \<lparr>start_document = None, state = ''described'', subs = [], uid = ''n2'',
           translation_nodes = [], docgen = ()\<rparr> \<noteq> ''stopped'' \<and>
   state \<lparr>start_document = None, state = ''stopped'', subs = [], uid = ''n2'',
           translation_nodes = [], docgen = ()\<rparr> = ''stopped'' \<and>
   map fst (emitted (snd (emit_start (\<lambda>g name x. ([], g))
      \<lparr>start_document = None, state = ''described'', subs = [], uid = ''n2'',
        translation_nodes = [], docgen = ()\<rparr> VNone))) = [''stop'', ''start''] \<and>
   map fst (emitted (snd (run (\<lambda>g name x. ([], g))
      \<lparr>start_document = None, state = ''stopped'', subs = [], uid = ''n2'',
        translation_nodes = [], docgen = ()\<rparr> [EmitStart VNone, EmitStart VNone]))) =
     [''start'', ''stop'', ''start'']"
  using emit_start_emergency_stop [of
      "\<lparr>start_document = None, state = ''described'', subs = [], uid = ''n2'',
        translation_nodes = [], docgen = ()\<rparr>"
      "\<lparr>start_document = None, state = ''stopped'', subs = [], uid = ''n2'',
        translation_nodes = [], docgen = ()\<rparr>"
      "\<lambda>g name x. ([], g)" VNone VNone VNone]
  by simp

lemma session_ok_append:
  "session_ok st (xs @ ys) = (session_ok st xs \<and> session_ok (state_after st xs) ys)"
  by (induction xs arbitrary: st) auto

lemma state_after_append:
  "state_after st (xs @ ys) = state_after (state_after st xs) ys"
  by (induction xs arbitrary: st) auto

lemma call_to_ok:
  "session_ok (state self) (map fst (emitted (snd (call_to docs self c)))) \<and>
   state_after (state self) (map fst (emitted (snd (call_to docs self c)))) =
     state (fst (call_to docs self c))"
proof (cases c)
  case (EmitStart x)
  then show ?thesis by (simp add: emit_start_names emit_start_state)
next
  case (EmitStop x)
  then show ?thesis by (simp add: emit_stop_names emit_stop_state)
next
  case (Update x)
  then show ?thesis by (simp add: update_to_names update_to_state)
qed

lemma run_ok:
  "session_ok (state self) (map fst (emitted (snd (run docs self calls)))) \<and>
   state_after (state self) (map fst (emitted (snd (run docs self calls)))) =
     state (fst (run docs self calls))"
proof (induction calls arbitrary: self)
  case Nil
  then show ?case by simp
next
  case (Cons c cs)
  obtain self1 acts1 where c: "call_to docs self c = (self1, acts1)"
    by (cases "call_to docs self c")
  obtain self2 acts2 where r: "run docs self1 cs = (self2, acts2)"
    by (cases "run docs self1 cs")
  have 1: "session_ok (state self) (map fst (emitted acts1))"
          "state_after (state self) (map fst (emitted acts1)) = state self1"
    using call_to_ok[of self docs c] c by simp_all
  have 2: "session_ok (state self1) (map fst (emitted acts2))"
          "state_after (state self1) (map fst (emitted acts2)) = state self2"
    using Cons.IH[of self1] r by simp_all
  show ?case using c r 1 2 by (simp add: session_ok_append state_after_append)
qed

lemma described_segment:
  "session_ok ''described'' (seg @ post) \<Longrightarrow> ''stop'' \<notin> set seg \<Longrightarrow>
     seg = replicate (length seg) ''event''"
  by (induction seg) (auto split: if_splits)

lemma started_segment:
  assumes "session_ok ''started'' (seg @ post)" and "''stop'' \<notin> set seg"
  shows "''start'' \<notin> set seg \<and> (seg = [] \<or> (\<exists>n. seg = ''descriptor'' # replicate n ''event''))"
proof (cases seg)
  case Nil
  then show ?thesis by simp
next
  case (Cons d rest)
  have d: "d = ''descriptor''" and r: "session_ok ''described'' (rest @ post)"
    using assms Cons by (auto split: if_splits)
  have "rest = replicate (length rest) ''event''"
    using described_segment[OF r] assms(2) Cons by simp
  then have e: "set rest \<subseteq> {''event''}" and "\<exists>n. rest = replicate n ''event''"
    by (metis set_replicate_conv_if empty_subsetI subset_refl, blast)
  then show ?thesis using Cons d by auto
qed


lemma run_append:
  "run docs self (cs @ ds) =
     (case run docs self cs of
        (self1, acts1) \<Rightarrow>
          (case run docs self1 ds of (self2, acts2) \<Rightarrow> (self2, acts1 @ acts2)))"
  by (induction cs arbitrary: self) (simp_all add: split_beta)

lemma run_updates_described:
  "state self \<noteq> ''started'' \<Longrightarrow>
     map fst (emitted (snd (run docs self (map Update ps)))) = replicate (length ps) ''event'' \<and>
     state (fst (run docs self (map Update ps))) = state self"
proof (induction ps arbitrary: self)
  case Nil
  then show ?case by simp
next
  case (Cons p ps)
  have "state (fst (update_to docs self p)) \<noteq> ''started''"
    using Cons.prems by (simp add: update_to_state)
  from Cons.IH[OF this] Cons.prems show ?case
    by (simp add: split_beta update_to_names update_to_state)
qed

lemma run_updates_started:
  assumes "state self = ''started''"
  shows "map fst (emitted (snd (run docs self (map Update ps)))) =
           (if ps = [] then [] else ''descriptor'' # replicate (length ps) ''event'')"
proof (cases ps)
  case Nil
  then show ?thesis by simp
next
  case (Cons p ps')
  have "state (fst (update_to docs self p)) \<noteq> ''started''"
    using assms by (simp add: update_to_state)
  from run_updates_described[OF this, of docs ps'] assms Cons show ?thesis
    by (simp add: split_beta update_to_names)
qed

lemma run_one_session:
  "map fst (emitted (snd (run docs self (EmitStart x # map Update ps @ [EmitStop y])))) =
     (if state self \<noteq> ''stopped'' then [''stop''] else []) @
     ''start'' # (if ps = [] then [] else ''descriptor'' # replicate (length ps) ''event'') @
     [''stop'']"
proof -
  let ?self1 = "fst (emit_start docs self x)"
  have s: "state ?self1 = ''started''" by (rule emit_start_state)
  have "map fst (emitted (snd (run docs ?self1 (map Update ps @ [EmitStop y])))) =
          (if ps = [] then [] else ''descriptor'' # replicate (length ps) ''event'') @ [''stop'']"
    using run_updates_started[OF s, of docs ps]
    by (simp add: run_append split_beta emit_stop_names)
  then show ?thesis
    by (simp add: split_beta emit_start_names)
qed

text \<open>
  C1, as the code has it. Whatever calls reach a reconstruction node, in the sequence of
  the documents it emits a start is followed, up to the next stop, by no further start and
  by at most one descriptor: by nothing at all when the session has no event, and
  otherwise by one descriptor, which comes first, and then events only. A session of
  \<^verbatim>\<open>emit_start\<close>, the payloads \<open>ps\<close> and \<^verbatim>\<open>emit_stop\<close> emits a start, one descriptor if
  there is a payload and none if there is not, one event for each payload, and a stop
  (after the stop that repairs a session left open).
\<close>

theorem run_sessions:
  assumes "map fst (emitted (snd (run docs self calls))) = pre @ ''start'' # seg @ post"
    and "''stop'' \<notin> set seg"
  shows "''start'' \<notin> set seg \<and>
         (seg = [] \<or> (\<exists>n. seg = ''descriptor'' # replicate n ''event'')) \<and>
         map fst (emitted (snd (run docs self' (EmitStart x # map Update ps @ [EmitStop y])))) =
           (if state self' \<noteq> ''stopped'' then [''stop''] else []) @
           ''start'' # (if ps = [] then [] else ''descriptor'' # replicate (length ps) ''event'') @
           [''stop'']"
proof -
  have "session_ok (state self) (pre @ ''start'' # seg @ post)"
    using run_ok[of self docs calls] assms(1) by simp
  then have "session_ok ''started'' (seg @ post)"
    by (simp add: session_ok_append)
  then have "''start'' \<notin> set seg \<and>
         (seg = [] \<or> (\<exists>n. seg = ''descriptor'' # replicate n ''event''))"
    using assms(2) by (rule started_segment)
  then show ?thesis using run_one_session[of docs self' x ps y] by simp
qed

theorem run_sessions_witness:
  "map fst (emitted (snd (run (\<lambda>g name x. ([], g))
      \<lparr>start_document = None, state = ''stopped'', subs = [], uid = ''n2'',
        translation_nodes = [], docgen = ()\<rparr>
      [EmitStart VNone, Update (VInt 1), Update (VInt 2), EmitStop VNone]))) =
     [] @ ''start'' # [''descriptor'', ''event'', ''event''] @ [''stop''] \<and>
   ''stop'' \<notin> set [''descriptor'', ''event'', ''event''] \<and>
   ''start'' \<notin> set [''descriptor'', ''event'', ''event''] \<and>
   ([''descriptor'', ''event'', ''event''] = [] \<or>
    (\<exists>n. [''descriptor'', ''event'', ''event''] = ''descriptor'' # replicate n ''event''))"
proof -
  have h1: "map fst (emitted (snd (run (\<lambda>g name x. ([], g))
      \<lparr>start_document = None, state = ''stopped'', subs = [], uid = ''n2'',
        translation_nodes = [], docgen = ()\<rparr>
      [EmitStart VNone, Update (VInt 1), Update (VInt 2), EmitStop VNone]))) =
     [] @ ''start'' # [''descriptor'', ''event'', ''event''] @ [''stop'']"
    by (simp add: split_beta emit_start_names emit_start_state update_to_names update_to_state
        emit_stop_names)
  have h2: "''stop'' \<notin> set [''descriptor'', ''event'', ''event'']" by simp
  from run_sessions [OF h1 h2] h1 h2 show ?thesis by blast
qed

text \<open>
  C1, as stated, fails: the claim has one descriptor in every session, also in a session
  without payloads. A start document and a stop document fed to the principal extraction
  node make the reconstruction node emit a start and a stop and no descriptor.
\<close>

theorem feed_start_stop_no_descriptor:
  "map fst (fst (snd (feed (\<lambda>g name x. ([], g)) 0
     (\<lparr>from_event_stream.principle = True, doc_type = ''event'',
        data_address = [Key ''data'', Key ''img''], event_stream_name = ALL_DOCS, uid = ''n1'',
        descriptor_uids = [], subs = [0], start_uid = VNone\<rparr>,
      \<lparr>start_document = None, state = ''stopped'', subs = [], uid = ''n2'',
        translation_nodes = [], docgen = ()\<rparr>)
     [(''start'', [(''uid'', VStr ''u1'')]), (''stop'', [(''uid'', VStr ''u2'')])]))) =
   [''start'', ''stop'']"
  by (simp add: update_from_def on_start_def on_descriptor_def on_stop_def doc_matches_def
      dict_item_def dict_get_def emit_start_def emit_stop_def create_doc_def start_doc_def
      doc_val_def dict_update_def dict_of_def Let_def)

text \<open>
  The same shape holds of what the reconstruction node of the docstring's example emits,
  whatever documents are fed to its extraction node.
\<close>

lemma feed_ok:
  "session_ok (state s3) (map fst (fst (snd (feed docs r (s2, s3) xs)))) \<and>
   state_after (state s3) (map fst (fst (snd (feed docs r (s2, s3) xs)))) =
     state (snd (fst (feed docs r (s2, s3) xs)))"
proof (induction xs arbitrary: s2 s3)
  case Nil
  then show ?case by simp
next
  case (Cons x xs)
  obtain s2' acts err where u: "update_from s2 x = (s2', acts, err)"
    by (cases "update_from s2 x")
  let ?s3 = "s3\<lparr>translation_nodes :=
                [(Uid (from_event_stream.uid s2'),
                  \<lparr>translation_node.uid = from_event_stream.uid s2',
                   start_uid = from_event_stream.start_uid s2'\<rparr>)]\<rparr>"
  obtain s3' acts' where r: "run docs ?s3 (calls_of r acts) = (s3', acts')"
    by (cases "run docs ?s3 (calls_of r acts)")
  have 1: "session_ok (state s3) (map fst (emitted acts'))"
    "state_after (state s3) (map fst (emitted acts')) = state s3'"
    using run_ok[of ?s3 docs "calls_of r acts"] r by simp_all
  show ?case
  proof (cases err)
    case (Some e)
    then show ?thesis using u r 1 by simp
  next
    case None
    obtain ns out err' where f: "feed docs r (s2', s3') xs = (ns, out, err')"
      by (cases "feed docs r (s2', s3') xs")
    have 2: "session_ok (state s3') (map fst out)"
      "state_after (state s3') (map fst out) = state (snd ns)"
      using Cons.IH[of s3' s2'] f by simp_all
    show ?thesis using u r None f 1 2
      by (simp add: session_ok_append state_after_append)
  qed
qed

lemma feed_sessions:
  assumes "map fst (fst (snd (feed docs r (s2, s3) xs))) = pre @ ''start'' # seg @ post"
    and "''stop'' \<notin> set seg"
  shows "''start'' \<notin> set seg \<and>
         (seg = [] \<or> (\<exists>n. seg = ''descriptor'' # replicate n ''event''))"
proof -
  have "session_ok (state s3) (pre @ ''start'' # seg @ post)"
    using feed_ok[of s3 docs r s2 xs] assms(1) by simp
  then have "session_ok ''started'' (seg @ post)"
    by (simp add: session_ok_append)
  then show ?thesis using assms(2) by (rule started_segment)
qed

text \<open>Assignments to a dict, one after the other: the keys, and the value under a key.\<close>

lemma foldl_update_fst:
  "fst ` set (foldl (\<lambda>d kv. AList.update (fst kv) (snd kv) d) d kvs) = fst ` set d \<union> fst ` set kvs"
  by (induction kvs arbitrary: d) (auto simp: dom_update)

lemma foldl_update_other:
  "k \<notin> fst ` set kvs \<Longrightarrow>
     map_of (foldl (\<lambda>d kv. AList.update (fst kv) (snd kv) d) d kvs) k = map_of d k"
  by (induction kvs arbitrary: d) (auto simp: update_conv')

lemma foldl_update_distinct:
  "distinct (map fst kvs) \<Longrightarrow> (k, v) \<in> set kvs \<Longrightarrow>
     map_of (foldl (\<lambda>d kv. AList.update (fst kv) (snd kv) d) d kvs) k = Some v"
proof (induction kvs arbitrary: d)
  case Nil
  then show ?case by simp
next
  case (Cons kv kvs)
  show ?case
  proof (cases "k = fst kv")
    case True
    then have n: "k \<notin> fst ` set kvs" using Cons.prems(1) by auto
    then have "(k, v) \<notin> set kvs" by force
    then have "kv = (k, v)" using Cons.prems(2) by simp
    then show ?thesis using n by (simp add: foldl_update_other update_conv')
  next
    case False
    then have "(k, v) \<in> set kvs" using Cons.prems(2) by auto
    then show ?thesis using Cons.IH Cons.prems(1) by simp
  qed
qed

lemma start_doc_body:
  "fst (start_doc docs self x) =
     AList.update ''parent_node_map''
       (VDict (dict_of (map (\<lambda>v. (translation_node.uid v, translation_node.start_uid v))
                         (started_nodes self))))
       (AList.update ''parent_uids''
          (VList (map translation_node.start_uid (started_nodes self)))
          (fst (docs (docgen self) ''start'' x)))"
  by (simp add: start_doc_def split_beta Let_def dict_update_def dict_of_def started_nodes_def
      filter_map comp_def)

lemma create_doc_translation_nodes [simp]:
  "translation_nodes (snd (create_doc docs self name x)) = translation_nodes self"
  by (simp add: create_doc_def start_doc_def Let_def split_beta)

lemma emit_stop_translation_nodes [simp]:
  "translation_nodes (fst (emit_stop docs self x)) = translation_nodes self"
  by (simp add: emit_stop_def split_beta)

lemma emit_start_start_body:
  assumes "(''start'', body) \<in> set (emitted (snd (emit_start docs self x)))"
  shows "\<exists>self1. body = fst (start_doc docs self1 x) \<and> translation_nodes self1 = translation_nodes self"
proof -
  let ?self1 = "if state self \<noteq> ''stopped'' then fst (emit_stop docs self x) else self"
  have ns: "fst (create_doc docs self ''stop'' x) \<noteq> (''start'', body)"
  proof
    assume "fst (create_doc docs self ''stop'' x) = (''start'', body)"
    then have "fst (fst (create_doc docs self ''stop'' x)) = ''start''" by simp
    then show False by simp
  qed
  have "(''start'', body) = fst (create_doc docs ?self1 ''start'' x)"
    using assms ns by (auto simp: emit_start_emitted split: if_splits)
  then have "body = fst (start_doc docs ?self1 x)"
    by (simp add: create_doc_def split_beta)
  moreover have "translation_nodes ?self1 = translation_nodes self" by simp
  ultimately show ?thesis by blast
qed

text \<open>
  C5. In a start document that \<^verbatim>\<open>emit_start\<close> emits, \<^verbatim>\<open>parent_uids\<close> is the list of the
  \<^verbatim>\<open>start_uid\<close> of the boundary nodes that have one, in the order of
  \<^verbatim>\<open>translation_nodes\<close>, and of no other node; \<^verbatim>\<open>parent_node_map\<close> is a dict whose keys are
  the \<^verbatim>\<open>uid\<close> of these nodes, each mapped to the node's \<^verbatim>\<open>start_uid\<close> (the nodes have
  different \<^verbatim>\<open>uid\<close>).
\<close>

theorem emit_start_provenance:
  assumes "(''start'', body) \<in> set (emitted (snd (emit_start docs self x)))"
  shows "map_of body ''parent_uids'' =
           Some (VList (map translation_node.start_uid (started_nodes self))) \<and>
         (\<exists>m. map_of body ''parent_node_map'' = Some (VDict m) \<and>
              fst ` set m = translation_node.uid ` set (started_nodes self) \<and>
              (distinct (map translation_node.uid (started_nodes self)) \<longrightarrow>
               (\<forall>v\<in>set (started_nodes self).
                  map_of m (translation_node.uid v) = Some (translation_node.start_uid v))))"
proof -
  obtain self1 where b: "body = fst (start_doc docs self1 x)"
    and t: "translation_nodes self1 = translation_nodes self"
    using emit_start_start_body[OF assms] by blast
  have s: "started_nodes self1 = started_nodes self" by (simp add: started_nodes_def t)
  let ?kvs = "map (\<lambda>v. (translation_node.uid v, translation_node.start_uid v)) (started_nodes self)"
  have 1: "map_of body ''parent_uids'' =
           Some (VList (map translation_node.start_uid (started_nodes self)))"
    by (simp add: b start_doc_body s update_conv')
  have 2: "map_of body ''parent_node_map'' = Some (VDict (dict_of ?kvs))"
    by (simp add: b start_doc_body s update_conv')
  have 3: "fst ` set (dict_of ?kvs) = translation_node.uid ` set (started_nodes self)"
    by (simp add: dict_of_def foldl_update_fst image_image)
  have 4: "map_of (dict_of ?kvs) (translation_node.uid v) = Some (translation_node.start_uid v)"
    if "distinct (map translation_node.uid (started_nodes self))" "v \<in> set (started_nodes self)" for v
  proof -
    have "distinct (map fst ?kvs)" using that(1) by (simp add: comp_def)
    moreover have "(translation_node.uid v, translation_node.start_uid v) \<in> set ?kvs"
      using that(2) by auto
    ultimately show ?thesis unfolding dict_of_def by (rule foldl_update_distinct)
  qed
  show ?thesis using 1 2 3 4 by blast
qed


theorem emit_start_provenance_witness:
  "(''start'', [(''parent_uids'', VList [VStr ''u1'']),
                (''parent_node_map'', VDict [(''a'', VStr ''u1'')])])
     \<in> set (emitted (snd (emit_start (\<lambda>g name x. ([], g))
          \<lparr>start_document = None, state = ''stopped'', subs = [], uid = ''n2'',
            translation_nodes =
              [(Uid ''a'', \<lparr>translation_node.uid = ''a'', start_uid = VStr ''u1''\<rparr>),
               (Uid ''b'', \<lparr>translation_node.uid = ''b'', start_uid = VNone\<rparr>)],
            docgen = ()\<rparr> VNone))) \<and>
   started_nodes
     \<lparr>start_document = None, state = ''stopped'', subs = [], uid = ''n2'',
       translation_nodes =
         [(Uid ''a'', \<lparr>translation_node.uid = ''a'', start_uid = VStr ''u1''\<rparr>),
          (Uid ''b'', \<lparr>translation_node.uid = ''b'', start_uid = VNone\<rparr>)],
       docgen = ()\<rparr> = [\<lparr>translation_node.uid = ''a'', start_uid = VStr ''u1''\<rparr>] \<and>
   map_of [(''parent_uids'', VList [VStr ''u1'']),
           (''parent_node_map'', VDict [(''a'', VStr ''u1'')])] ''parent_uids'' =
     Some (VList [VStr ''u1''])"
proof -
  have h: "(''start'', [(''parent_uids'', VList [VStr ''u1'']),
                (''parent_node_map'', VDict [(''a'', VStr ''u1'')])])
     \<in> set (emitted (snd (emit_start (\<lambda>g name x. ([], g))
          \<lparr>start_document = None, state = ''stopped'', subs = [], uid = ''n2'',
            translation_nodes =
              [(Uid ''a'', \<lparr>translation_node.uid = ''a'', start_uid = VStr ''u1''\<rparr>),
               (Uid ''b'', \<lparr>translation_node.uid = ''b'', start_uid = VNone\<rparr>)],
            docgen = ()\<rparr> VNone)))"
    by (simp add: emit_start_def create_doc_def start_doc_def dict_update_def dict_of_def
        Let_def)
  from emit_start_provenance [OF h] h show ?thesis
    by (simp add: started_nodes_def)
qed

section \<open>Properties of the alignment node\<close>

lemma slice_even_pairs:
  "slice_even (concat (map (\<lambda>p. [VStr (fst p), VDict (snd p)]) ps)) = map (\<lambda>p. VStr (fst p)) ps"
  by (induction ps) simp_all

lemma slice_odd_pairs:
  "slice_odd (concat (map (\<lambda>p. [VStr (fst p), VDict (snd p)]) ps)) = map (\<lambda>p. VDict (snd p)) ps"
  by (induction ps) simp_all

lemma mapping_bodies_dicts: "mapping_bodies (map (\<lambda>p. VDict (snd p)) ps) = Inr (map snd ps)"
  by (induction ps) simp_all

lemma deep_merge_lookup:
  "distinct (map fst b) \<Longrightarrow>
     map_of (deep_merge a b) k =
       (case map_of b k of
          None \<Rightarrow> map_of a k
        | Some v \<Rightarrow>
            Some (case map_of a k of
                    Some (VDict da) \<Rightarrow> (case v of VDict db \<Rightarrow> VDict (deep_merge da db) | _ \<Rightarrow> v)
                  | _ \<Rightarrow> v))"
proof (induction b arbitrary: a)
  case Nil
  then show ?case by simp
next
  case (Cons kv b)
  obtain k' v' where kv: "kv = (k', v')" by (cases kv)
  have d: "distinct (map fst b)" and n: "k' \<notin> fst ` set b" using Cons.prems kv by auto
  have n': "map_of b k' = None" using n by (simp add: map_of_eq_None_iff)
  show ?case
  proof (cases "k = k'")
    case True
    then show ?thesis using Cons.IH[OF d] kv n' by (simp add: update_conv')
  next
    case False
    then show ?thesis using Cons.IH[OF d] kv by (simp add: update_conv' split: option.split)
  qed
qed

text \<open>
  C6. For the popped pairs \<open>ps\<close>, in the order of the upstreams, \<^verbatim>\<open>_emit\<close> hands on the
  name of the first pair and the merge of all bodies from left to right. In a merge of a
  body \<open>b\<close> into \<open>a\<close> a key of \<open>b\<close> takes the value of \<open>b\<close>, two mappings under the same
  key are merged in turn, and the other keys of \<open>a\<close> stay. The bodies \<^verbatim>\<open>{x:1,y:2}\<close> and
  \<^verbatim>\<open>{y:3,z:4}\<close> give \<^verbatim>\<open>{x:1,y:3,z:4}\<close>.
\<close>

theorem emit_align_merge:
  assumes "ps \<noteq> []" and "distinct (map fst b)"
  shows "emit_align (map (\<lambda>p. [VStr (fst p), VDict (snd p)]) ps) =
           Inr (VStr (fst (hd ps)), foldl deep_merge [] (map snd ps)) \<and>
         map_of (deep_merge a b) k =
           (case map_of b k of
              None \<Rightarrow> map_of a k
            | Some v \<Rightarrow>
                Some (case map_of a k of
                        Some (VDict da) \<Rightarrow>
                          (case v of VDict db \<Rightarrow> VDict (deep_merge da db) | _ \<Rightarrow> v)
                      | _ \<Rightarrow> v)) \<and>
         emit_align [[VStr n, VDict [(''x'', VInt 1), (''y'', VInt 2)]],
                     [VStr n', VDict [(''y'', VInt 3), (''z'', VInt 4)]]] =
           Inr (VStr n, [(''x'', VInt 1), (''y'', VInt 3), (''z'', VInt 4)])"
proof -
  have c: "convert_to_dict_ChainDB (map (\<lambda>p. VDict (snd p)) ps) =
             Inr (foldl deep_merge [] (map snd ps))"
    by (simp add: convert_to_dict_ChainDB_def mapping_bodies_dicts)
  have h: "map (\<lambda>p. VStr (fst p)) ps = VStr (fst (hd ps)) # map (\<lambda>p. VStr (fst p)) (tl ps)"
    using assms(1) by (cases ps) simp_all
  have 1: "emit_align (map (\<lambda>p. [VStr (fst p), VDict (snd p)]) ps) =
           Inr (VStr (fst (hd ps)), foldl deep_merge [] (map snd ps))"
    unfolding emit_align_def Let_def slice_even_pairs slice_odd_pairs c
    by (subst h) simp
  have 3: "emit_align [[VStr n, VDict [(''x'', VInt 1), (''y'', VInt 2)]],
                     [VStr n', VDict [(''y'', VInt 3), (''z'', VInt 4)]]] =
           Inr (VStr n, [(''x'', VInt 1), (''y'', VInt 3), (''z'', VInt 4)])"
    by (simp add: emit_align_def convert_to_dict_ChainDB_def)
  show ?thesis using 1 3 deep_merge_lookup[OF assms(2)] by simp
qed

theorem emit_align_merge_witness:
  "[(''start'', [(''x'', VInt 1), (''y'', VInt 2)]),
    (''start'', [(''y'', VInt 3), (''z'', VInt 4)])] \<noteq> [] \<and>
   distinct (map fst [(''y'', VInt 3), (''z'', VInt 4)]) \<and>
   emit_align [[VStr ''start'', VDict [(''x'', VInt 1), (''y'', VInt 2)]],
               [VStr ''start'', VDict [(''y'', VInt 3), (''z'', VInt 4)]]] =
     Inr (VStr ''start'', [(''x'', VInt 1), (''y'', VInt 3), (''z'', VInt 4)]) \<and>
   map_of (deep_merge [(''x'', VInt 1), (''y'', VInt 2)] [(''y'', VInt 3), (''z'', VInt 4)])
     ''y'' = Some (VInt 3)"
  using emit_align_merge [of
      "[(''start'', [(''x'', VInt 1), (''y'', VInt 2)]),
        (''start'', [(''y'', VInt 3), (''z'', VInt 4)])]"
      "[(''y'', VInt 3), (''z'', VInt 4)]"
      "[(''x'', VInt 1), (''y'', VInt 2)]" "''y''" "''start''" "''start''"]
  by simp

section \<open>Properties of the graph walk\<close>

text \<open>The equation of the walk, case by case.\<close>

lemma walk_Upstreams_Nil: "walk_to_translation s g (Upstreams [] n) = Some g"
  by (subst walk_to_translation.simps) simp

lemma walk_Upstreams_None:
  "walk_to_translation s g (Upstreams (None # rest) n) = walk_to_translation s g (Upstreams rest n)"
  by (subst walk_to_translation.simps) simp

lemma walk_Upstreams_Some:
  "walk_to_translation s g (Upstreams (Some u # rest) n) =
     Option.bind (walk_to_translation s g (Walk (Some u) (Some n)))
       (\<lambda>g'. walk_to_translation s g' (Upstreams rest n))"
  by (subst walk_to_translation.simps) simp

lemma walk_Walk_dead: "live s n0 = None \<Longrightarrow> walk_to_translation s g (Walk n0 p0) = Some g"
  by (subst walk_to_translation.simps) simp

lemma walk_Walk_root:
  "live s n0 = Some n \<Longrightarrow> live s p0 = None \<Longrightarrow>
     walk_to_translation s g (Walk n0 p0) =
       walk_to_translation s (add_node g (hash_or_uid s n) n) (Upstreams (upstreams (s ! n)) n)"
  by (subst walk_to_translation.simps) (simp add: Let_def)

lemma walk_Walk_guard:
  "live s n0 = Some n \<Longrightarrow> live s p0 = Some p \<Longrightarrow>
   has_edge g (hash_or_uid s n) (hash_or_uid s p) \<Longrightarrow>
     walk_to_translation s g (Walk n0 p0) = Some (add_node g (hash_or_uid s n) n)"
  by (subst walk_to_translation.simps) (simp add: Let_def has_edge_def add_node_def)

lemma walk_Walk_from:
  "live s n0 = Some n \<Longrightarrow> live s p0 = Some p \<Longrightarrow>
   \<not> has_edge g (hash_or_uid s n) (hash_or_uid s p) \<Longrightarrow>
   kind (s ! n) = SimpleFromEventStream \<Longrightarrow>
     walk_to_translation s g (Walk n0 p0) =
       Some (add_edge (add_node g (hash_or_uid s n) n) (hash_or_uid s n) (hash_or_uid s p))"
  by (subst walk_to_translation.simps) (simp add: Let_def has_edge_def add_node_def)

lemma walk_Walk_sibling:
  "live s n0 = Some n \<Longrightarrow> live s p0 = Some p \<Longrightarrow>
   \<not> has_edge g (hash_or_uid s n) (hash_or_uid s p) \<Longrightarrow>
   kind (s ! n) \<noteq> SimpleFromEventStream \<Longrightarrow>
   find (\<lambda>d. d < length s \<and> kind (s ! d) = SimpleToEventStream \<and>
          \<not> in_graph (hash_or_uid s d)
             (add_edge (add_node g (hash_or_uid s n) n) (hash_or_uid s n) (hash_or_uid s p)))
     (downstreams (s ! n)) = Some d \<Longrightarrow>
     walk_to_translation s g (Walk n0 p0) =
       Some (add_edge
              (add_node
                (add_edge (add_node g (hash_or_uid s n) n) (hash_or_uid s n) (hash_or_uid s p))
                (hash_or_uid s d) d)
              (hash_or_uid s n) (hash_or_uid s d))"
  by (subst walk_to_translation.simps) (simp add: Let_def has_edge_def add_node_def)

lemma walk_Walk_up:
  "live s n0 = Some n \<Longrightarrow> live s p0 = Some p \<Longrightarrow>
   \<not> has_edge g (hash_or_uid s n) (hash_or_uid s p) \<Longrightarrow>
   kind (s ! n) \<noteq> SimpleFromEventStream \<Longrightarrow>
   find (\<lambda>d. d < length s \<and> kind (s ! d) = SimpleToEventStream \<and>
          \<not> in_graph (hash_or_uid s d)
             (add_edge (add_node g (hash_or_uid s n) n) (hash_or_uid s n) (hash_or_uid s p)))
     (downstreams (s ! n)) = None \<Longrightarrow>
     walk_to_translation s g (Walk n0 p0) =
       walk_to_translation s
         (add_edge (add_node g (hash_or_uid s n) n) (hash_or_uid s n) (hash_or_uid s p))
         (Upstreams (upstreams (s ! n)) n)"
  by (subst walk_to_translation.simps) (simp add: Let_def has_edge_def add_node_def)

text \<open>
  The walk returns. A call that finds its edge in the graph returns at once; every other
  call adds an edge between two nodes of the store, of which there are finitely many, so
  the deficit goes down at each call that goes on upstream.
\<close>

lemma edges_add_node [simp]: "edges (add_node g k r) = edges g"
  by (simp add: add_node_def)

lemma edges_add_edge [simp]: "set (edges (add_edge g u v)) = insert (u, v) (set (edges g))"
  by (simp add: add_edge_def)

lemma live_Some: "live s r = Some n \<Longrightarrow> r = Some n \<and> n < length s"
  by (auto simp: live_def split: option.splits if_splits)

lemma live_valid [simp]: "n < length s \<Longrightarrow> live s (Some n) = Some n"
  by (simp add: live_def)

lemma key_in_keys: "n < length s \<Longrightarrow> hash_or_uid s n \<in> keys_of s"
  by (simp add: keys_of_def)

lemma deficit_mono: "set (edges g) \<subseteq> set (edges g') \<Longrightarrow> deficit s g' \<le> deficit s g"
  unfolding deficit_def by (rule card_mono) (auto simp: keys_of_def)

lemma deficit_add_edge:
  assumes "n < length s" and "p < length s"
    and "\<not> has_edge g (hash_or_uid s n) (hash_or_uid s p)"
  shows "deficit s (add_edge (add_node g k r) (hash_or_uid s n) (hash_or_uid s p)) < deficit s g"
proof -
  let ?K = "keys_of s \<times> keys_of s"
  let ?e = "(hash_or_uid s n, hash_or_uid s p)"
  have f: "finite (?K - set (edges g))" by (simp add: keys_of_def)
  have m: "?e \<in> ?K - set (edges g)"
    using assms by (simp add: key_in_keys has_edge_def)
  have "?K - insert ?e (set (edges g)) = (?K - set (edges g)) - {?e}" by auto
  then show ?thesis
    unfolding deficit_def using card_Diff1_less[OF f m] by simp
qed

lemma walk_total:
  assumes "\<And>us n. task = Upstreams us n \<Longrightarrow> n < length s"
  shows "\<exists>g'. walk_to_translation s g task = Some g' \<and> set (edges g) \<subseteq> set (edges g')"
  using assms
proof (induction "(g, task)" arbitrary: g task
    rule: wf_induct_rule [OF wf_measures [of "[\<lambda>(g, t). deficit s g, \<lambda>(g, t). rank s t]"]])
  case (1 g task)
  have IH: "\<exists>g''. walk_to_translation s g' t' = Some g'' \<and> set (edges g') \<subseteq> set (edges g'')"
    if "deficit s g' < deficit s g \<or> (deficit s g' = deficit s g \<and> rank s t' < rank s task)"
      and "\<And>us n. t' = Upstreams us n \<Longrightarrow> n < length s" for g' t'
    using "1.hyps"[of g' t'] that by auto
  show ?case
  proof (cases task)
    case (Upstreams us n)
    then have n: "n < length s" using "1.prems" by simp
    show ?thesis
    proof (cases us)
      case Nil
      then show ?thesis using Upstreams by (simp add: walk_Upstreams_Nil)
    next
      case (Cons u rest)
      show ?thesis
      proof (cases u)
        case None
        have "\<exists>g''. walk_to_translation s g (Upstreams rest n) = Some g'' \<and>
                set (edges g) \<subseteq> set (edges g'')"
          by (rule IH) (use Upstreams Cons n in auto)
        then show ?thesis using Upstreams Cons None by (simp add: walk_Upstreams_None)
      next
        case (Some u')
        have "\<exists>g1. walk_to_translation s g (Walk (Some u') (Some n)) = Some g1 \<and>
                set (edges g) \<subseteq> set (edges g1)"
          by (rule IH) (use Upstreams Cons n in auto)
        then obtain g1 where g1: "walk_to_translation s g (Walk (Some u') (Some n)) = Some g1"
          "set (edges g) \<subseteq> set (edges g1)" by blast
        have le: "deficit s g1 \<le> deficit s g" using g1(2) by (rule deficit_mono)
        have "\<exists>g2. walk_to_translation s g1 (Upstreams rest n) = Some g2 \<and>
                set (edges g1) \<subseteq> set (edges g2)"
          by (rule IH) (use Upstreams Cons n le in auto)
        then obtain g2 where g2: "walk_to_translation s g1 (Upstreams rest n) = Some g2"
          "set (edges g1) \<subseteq> set (edges g2)" by blast
        show ?thesis using Upstreams Cons Some g1 g2 by (auto simp: walk_Upstreams_Some)
      qed
    qed
  next
    case (Walk n0 p0)
    show ?thesis
    proof (cases "live s n0")
      case None
      then show ?thesis using Walk by (simp add: walk_Walk_dead)
    next
      case (Some n)
      then have n: "n < length s" using live_Some by blast
      let ?t = "hash_or_uid s n"
      let ?g1 = "add_node g ?t n"
      show ?thesis
      proof (cases "live s p0")
        case None
        have "\<exists>g''. walk_to_translation s ?g1 (Upstreams (upstreams (s ! n)) n) = Some g'' \<and>
                set (edges ?g1) \<subseteq> set (edges g'')"
          by (rule IH) (use Walk Some None n in \<open>auto simp: deficit_def\<close>)
        then show ?thesis using Walk Some None by (simp add: walk_Walk_root)
      next
        case p: (Some p)
        then have pl: "p < length s" using live_Some by blast
        let ?tt = "hash_or_uid s p"
        let ?g2 = "add_edge ?g1 ?t ?tt"
        show ?thesis
        proof (cases "has_edge g ?t ?tt")
          case True
          then show ?thesis using Walk Some p by (simp add: walk_Walk_guard)
        next
          case False
          have lt: "deficit s ?g2 < deficit s g" using n pl False by (rule deficit_add_edge)
          show ?thesis
          proof (cases "kind (s ! n) = SimpleFromEventStream")
            case True
            then show ?thesis using Walk Some p False by (auto simp: walk_Walk_from)
          next
            case nf: False
            show ?thesis
            proof (cases "find (\<lambda>d. d < length s \<and> kind (s ! d) = SimpleToEventStream \<and>
                             \<not> in_graph (hash_or_uid s d) ?g2) (downstreams (s ! n))")
              case None
              have "\<exists>g''. walk_to_translation s ?g2 (Upstreams (upstreams (s ! n)) n) = Some g'' \<and>
                      set (edges ?g2) \<subseteq> set (edges g'')"
                by (rule IH) (use lt n in auto)
              then show ?thesis
                using walk_Walk_up[OF Some p False nf None] Walk by auto
            next
              case d: (Some d)
              show ?thesis
                using walk_Walk_sibling[OF Some p False nf d] Walk by auto
            qed
          qed
        qed
      qed
    qed
  qed
qed

text \<open>
  C8. The walk returns for every store, graph, node and prior node, whatever cycles the
  upstream lists form. A call whose edge to the prior node is already in the graph returns
  without going upstream, and so does a call on an extraction node.
\<close>

theorem walk_to_translation_terminates:
  "(\<exists>graph'. walk_to_translation s graph (Walk node prior_node) = Some graph') \<and>
   (n < length s \<and> p < length s \<and> has_edge g (hash_or_uid s n) (hash_or_uid s p) \<longrightarrow>
      walk_to_translation s g (Walk (Some n) (Some p)) =
        Some (add_node g (hash_or_uid s n) n)) \<and>
   (n < length s \<and> p < length s \<and> \<not> has_edge g (hash_or_uid s n) (hash_or_uid s p) \<and>
    kind (s ! n) = SimpleFromEventStream \<longrightarrow>
      walk_to_translation s g (Walk (Some n) (Some p)) =
        Some (add_edge (add_node g (hash_or_uid s n) n) (hash_or_uid s n) (hash_or_uid s p)))"
  using walk_total[of "Walk node prior_node" s graph]
  by (auto simp: walk_Walk_guard walk_Walk_from)

theorem walk_to_translation_terminates_witness:
  "walk_to_translation cyclic_store DiGraph (Walk (Some 0) None) =
     Some \<lparr>nodes = [(Uid ''r'', Some 0), (Hash 1, Some 1), (Hash 2, Some 2)],
           edges = [(Hash 1, Hash 2), (Hash 2, Hash 1), (Hash 1, Uid ''r'')]\<rparr> \<and>
   (2 < length cyclic_store \<and> 1 < length cyclic_store \<and>
    has_edge \<lparr>nodes = [(Hash 1, Some 1), (Hash 2, Some 2)], edges = [(Hash 2, Hash 1)]\<rparr>
      (hash_or_uid cyclic_store 2) (hash_or_uid cyclic_store 1)) \<and>
   walk_to_translation cyclic_store
      \<lparr>nodes = [(Hash 1, Some 1), (Hash 2, Some 2)], edges = [(Hash 2, Hash 1)]\<rparr>
      (Walk (Some 2) (Some 1)) =
     Some \<lparr>nodes = [(Hash 1, Some 1), (Hash 2, Some 2)], edges = [(Hash 2, Hash 1)]\<rparr> \<and>
   (2 < length pipeline_store \<and> 1 < length pipeline_store \<and>
    \<not> has_edge \<lparr>nodes = [(Hash 1, Some 1)], edges = []\<rparr>
      (hash_or_uid pipeline_store 2) (hash_or_uid pipeline_store 1) \<and>
    kind (pipeline_store ! 2) = SimpleFromEventStream) \<and>
   walk_to_translation pipeline_store \<lparr>nodes = [(Hash 1, Some 1)], edges = []\<rparr>
      (Walk (Some 2) (Some 1)) =
     Some \<lparr>nodes = [(Hash 1, Some 1), (Uid ''e'', Some 2)], edges = [(Uid ''e'', Hash 1)]\<rparr>"
proof -
  have a: "walk_to_translation cyclic_store DiGraph (Walk (Some 0) None) =
     Some \<lparr>nodes = [(Uid ''r'', Some 0), (Hash 1, Some 1), (Hash 2, Some 2)],
           edges = [(Hash 1, Hash 2), (Hash 2, Hash 1), (Hash 1, Uid ''r'')]\<rparr>"
    by code_simp
  have h2: "2 < length cyclic_store \<and> 1 < length cyclic_store \<and>
    has_edge \<lparr>nodes = [(Hash 1, Some 1), (Hash 2, Some 2)], edges = [(Hash 2, Hash 1)]\<rparr>
      (hash_or_uid cyclic_store 2) (hash_or_uid cyclic_store 1)"
    by (simp add: cyclic_store_def has_edge_def hash_or_uid_def)
  have h3: "2 < length pipeline_store \<and> 1 < length pipeline_store \<and>
    \<not> has_edge \<lparr>nodes = [(Hash 1, Some 1)], edges = []\<rparr>
      (hash_or_uid pipeline_store 2) (hash_or_uid pipeline_store 1) \<and>
    kind (pipeline_store ! 2) = SimpleFromEventStream"
    by (simp add: pipeline_store_def has_edge_def hash_or_uid_def)
  have c2: "walk_to_translation cyclic_store
      \<lparr>nodes = [(Hash 1, Some 1), (Hash 2, Some 2)], edges = [(Hash 2, Hash 1)]\<rparr>
      (Walk (Some 2) (Some 1)) =
     Some \<lparr>nodes = [(Hash 1, Some 1), (Hash 2, Some 2)], edges = [(Hash 2, Hash 1)]\<rparr>"
    using walk_to_translation_terminates [of cyclic_store DiGraph None None 2 1
        "\<lparr>nodes = [(Hash 1, Some 1), (Hash 2, Some 2)], edges = [(Hash 2, Hash 1)]\<rparr>"] h2
    by (simp add: cyclic_store_def hash_or_uid_def add_node_def)
  have c3: "walk_to_translation pipeline_store \<lparr>nodes = [(Hash 1, Some 1)], edges = []\<rparr>
      (Walk (Some 2) (Some 1)) =
     Some \<lparr>nodes = [(Hash 1, Some 1), (Uid ''e'', Some 2)], edges = [(Uid ''e'', Hash 1)]\<rparr>"
    using walk_to_translation_terminates [of pipeline_store DiGraph None None 2 1
        "\<lparr>nodes = [(Hash 1, Some 1)], edges = []\<rparr>"] h3
    by (simp add: pipeline_store_def hash_or_uid_def add_node_def add_edge_def ensure_node_def)
  show ?thesis using a h2 c2 h3 c3 by blast
qed

section \<open>Properties of the construction of a reconstruction node\<close>

lemma set_update_cases:
  "ka \<in> set (AList.update k v al) \<Longrightarrow> ka = (k, v) \<or> ka \<in> set al"
  by (induction al) (auto split: if_splits)

lemma attrs_ok_add_node:
  "attrs_ok s (nodes g) \<Longrightarrow> n < length s \<Longrightarrow> attrs_ok s (nodes (add_node g k n))"
  unfolding attrs_ok_def add_node_def by (auto dest: set_update_cases simp: distinct_update)

lemma in_graph_add_node: "in_graph k' (add_node g k n) = (k' = k \<or> in_graph k' g)"
  by (auto simp: in_graph_def add_node_def dom_update)

lemma nodes_add_edge:
  "in_graph u g \<Longrightarrow> in_graph v g \<Longrightarrow> nodes (add_edge g u v) = nodes g"
  by (simp add: in_graph_def add_edge_def ensure_node_def)

lemma in_graph_nodes: "nodes g' = nodes g \<Longrightarrow> in_graph k g' = in_graph k g"
  by (simp add: in_graph_def)

lemma walk_attrs:
  assumes "walk_to_translation s g task = Some g'"
  shows "attrs_ok s (nodes g) \<longrightarrow> task_ok s g task \<longrightarrow>
         attrs_ok s (nodes g') \<and> (\<forall>k. in_graph k g \<longrightarrow> in_graph k g')"
  using assms
proof (induction rule: walk_to_translation.raw_induct [rotated 1, consumes 1, case_names body])
  case (body walk s g task g')
  note IH = body.IH
  note body = body.hyps
  show ?case
  proof (intro impI)
    assume a: "attrs_ok s (nodes g)" and t: "task_ok s g task"
    show "attrs_ok s (nodes g') \<and> (\<forall>k. in_graph k g \<longrightarrow> in_graph k g')"
    proof (cases task)
      case (Upstreams us n)
      then have n: "n < length s" "in_graph (hash_or_uid s n) g" using t by simp_all
      show ?thesis
      proof (cases us)
        case Nil
        then show ?thesis using body Upstreams a by simp
      next
        case (Cons u rest)
        show ?thesis
        proof (cases u)
          case None
          then have "walk s g (Upstreams rest n) = Some g'" using body Upstreams Cons by simp
          from IH[OF this] a n show ?thesis by simp
        next
          case (Some u')
          then obtain g1 where g1: "walk s g (Walk (Some u') (Some n)) = Some g1"
            and g2: "walk s g1 (Upstreams rest n) = Some g'"
            using body Upstreams Cons by (auto simp: bind_eq_Some_conv)
          have 1: "attrs_ok s (nodes g1) \<and> (\<forall>k. in_graph k g \<longrightarrow> in_graph k g1)"
            using IH[OF g1] a n by simp
          have 2: "attrs_ok s (nodes g') \<and> (\<forall>k. in_graph k g1 \<longrightarrow> in_graph k g')"
            using IH[OF g2] 1 n by simp
          show ?thesis using 1 2 by blast
        qed
      qed
    next
      case (Walk n0 p0)
      show ?thesis
      proof (cases "live s n0")
        case None
        then show ?thesis using body Walk a by simp
      next
        case (Some n)
        then have n: "n < length s" using live_Some by blast
        let ?t = "hash_or_uid s n"
        let ?g1 = "add_node g ?t n"
        have a1: "attrs_ok s (nodes ?g1)" using a n by (rule attrs_ok_add_node)
        have i1: "in_graph k ?g1" if "in_graph k g" for k using that by (simp add: in_graph_add_node)
        have t1: "in_graph ?t ?g1" by (simp add: in_graph_add_node)
        show ?thesis
        proof (cases "live s p0")
          case None
          then have "walk s ?g1 (Upstreams (upstreams (s ! n)) n) = Some g'"
            using body Walk Some by (simp add: Let_def)
          from IH[OF this] a1 n t1 i1 show ?thesis by simp
        next
          case p: (Some p)
          let ?tt = "hash_or_uid s p"
          let ?g2 = "add_edge ?g1 ?t ?tt"
          have tt: "in_graph ?tt ?g1" using t Walk p i1 by simp
          have n2: "nodes ?g2 = nodes ?g1" using t1 tt by (rule nodes_add_edge)
          show ?thesis
          proof (cases "has_edge ?g1 ?t ?tt")
            case True
            then have "g' = ?g1" using body Walk Some p by (simp add: Let_def)
            then show ?thesis using a1 i1 by simp
          next
            case False
            show ?thesis
            proof (cases "kind (s ! n) = SimpleFromEventStream")
              case True
              then have "g' = ?g2" using body Walk Some p False by (simp add: Let_def)
              then show ?thesis using a1 i1 n2 by (simp add: in_graph_nodes[OF n2])
            next
              case nf: False
              show ?thesis
              proof (cases "find (\<lambda>d. d < length s \<and> kind (s ! d) = SimpleToEventStream \<and>
                               \<not> in_graph (hash_or_uid s d) ?g2) (downstreams (s ! n))")
                case None
                then have "walk s ?g2 (Upstreams (upstreams (s ! n)) n) = Some g'"
                  using body Walk Some p False nf by (simp add: Let_def)
                from IH[OF this] a1 n t1 i1 n2 show ?thesis
                  by (simp add: in_graph_nodes[OF n2])
              next
                case d: (Some d)
                then have dl: "d < length s" by (auto simp: find_Some_iff)
                let ?ttt = "hash_or_uid s d"
                let ?g3 = "add_node ?g2 ?ttt d"
                have g': "g' = add_edge ?g3 ?t ?ttt"
                  using body Walk Some p False nf d by (simp add: Let_def)
                have a3: "attrs_ok s (nodes ?g3)"
                  using a1 n2 dl by (intro attrs_ok_add_node) simp_all
                have "in_graph ?t ?g3" "in_graph ?ttt ?g3"
                  using t1 by (simp_all add: in_graph_add_node in_graph_nodes[OF n2])
                then have n4: "nodes (add_edge ?g3 ?t ?ttt) = nodes ?g3" by (rule nodes_add_edge)
                show ?thesis
                  using a3 i1 by (simp add: g' n4 in_graph_nodes[OF n4] in_graph_add_node
                      in_graph_nodes[OF n2])
              qed
            qed
          qed
        qed
      qed
    qed
  qed
qed

lemma update_fresh: "k \<notin> fst ` set al \<Longrightarrow> AList.update k v al = al @ [(k, v)]"
  by (induction al) auto

lemma translation_nodes_of_ok:
  "attrs_ok s items \<Longrightarrow> fst ` set tn \<inter> fst ` set items = {} \<Longrightarrow>
     \<exists>tn'. translation_nodes_of s self tn items = Inr tn' \<and>
       set tn' = set tn \<union> {kn. (fst kn, Some (snd kn)) \<in> set items \<and> boundary s self (snd kn)}"
proof (induction items arbitrary: tn)
  case Nil
  then show ?case by simp
next
  case (Cons ka items)
  obtain k r where ka: "ka = (k, Some r)" "r < length s"
    using Cons.prems(1) by (cases ka) (auto simp: attrs_ok_def)
  have i: "attrs_ok s items" and f: "k \<notin> fst ` set items"
    using Cons.prems(1) ka by (auto simp: attrs_ok_def)
  have kt: "k \<notin> fst ` set tn" using Cons.prems(2) ka by auto
  let ?tn1 = "if boundary s self r then tn @ [(k, r)] else tn"
  have d: "fst ` set ?tn1 \<inter> fst ` set items = {}" using Cons.prems(2) f by auto
  have e: "translation_nodes_of s self tn (ka # items) = translation_nodes_of s self ?tn1 items"
    using ka kt by (simp add: boundary_def update_fresh)
  obtain tn' where t: "translation_nodes_of s self ?tn1 items = Inr tn'"
    "set tn' = set ?tn1 \<union> {kn. (fst kn, Some (snd kn)) \<in> set items \<and> boundary s self (snd kn)}"
    using Cons.IH[OF i d] by blast
  have "set tn' = set tn \<union>
      {kn. (fst kn, Some (snd kn)) \<in> set (ka # items) \<and> boundary s self (snd kn)}"
    using t(2) ka by auto
  then show ?case using e t(1) by simp
qed

lemma length_subs_append [simp]: "length (subs_append s ps self) = length s"
  by (induction ps arbitrary: s) simp_all

lemma subs_append_keeps:
  "p < length s \<Longrightarrow> self \<in> set (stream.subs (s ! p)) \<Longrightarrow>
     self \<in> set (stream.subs (subs_append s ps self ! p))"
proof (induction ps arbitrary: s)
  case Nil
  then show ?case by simp
next
  case (Cons q ps)
  let ?s1 = "s[q := (s ! q)\<lparr>stream.subs := stream.subs (s ! q) @ [self]\<rparr>]"
  have "self \<in> set (stream.subs (?s1 ! p))"
    using Cons.prems by (cases "p = q") simp_all
  then show ?case using Cons.IH[of ?s1] Cons.prems(1) by simp
qed

lemma subs_append_registers:
  "p \<in> set ps \<Longrightarrow> \<forall>q\<in>set ps. q < length s \<Longrightarrow>
     self \<in> set (stream.subs (subs_append s ps self ! p))"
proof (induction ps arbitrary: s)
  case Nil
  then show ?case by simp
next
  case (Cons q ps)
  let ?s1 = "s[q := (s ! q)\<lparr>stream.subs := stream.subs (s ! q) @ [self]\<rparr>]"
  show ?case
  proof (cases "p = q")
    case True
    have "self \<in> set (stream.subs (?s1 ! p))" using True Cons.prems(2) by simp
    then show ?thesis using subs_append_keeps[of p ?s1 self ps] Cons.prems(2) True by simp
  next
    case False
    then show ?thesis using Cons.IH[of ?s1] Cons.prems by simp
  qed
qed

text \<open>
  C7. The walk of \<^verbatim>\<open>__init__\<close> returns a graph, and \<^verbatim>\<open>translation_nodes\<close> holds the boundary
  nodes of that graph. The construction raises \<^verbatim>\<open>RuntimeError\<close> if and only if no boundary
  node is marked \<^verbatim>\<open>principle\<close> and none is a reconstruction node. In every other case it
  succeeds, and every boundary node that is marked or is a reconstruction node has \<open>self\<close>
  in its \<^verbatim>\<open>subs\<close> afterwards.
\<close>

theorem init_to_config_error:
  "\<exists>graph tn.
     walk_to_translation s DiGraph (Walk (Some self) None) = Some graph \<and>
     set tn = {kn. (fst kn, Some (snd kn)) \<in> set (nodes graph) \<and> boundary s self (snd kn)} \<and>
     (init_to s self = Some (Inl RuntimeError) \<longleftrightarrow>
        (\<forall>kn\<in>set tn. \<not> principle (s ! snd kn) \<and> kind (s ! snd kn) \<noteq> SimpleToEventStream)) \<and>
     (init_to s self \<noteq> Some (Inl RuntimeError) \<longrightarrow>
        (\<exists>s'. init_to s self = Some (Inr (s', tn, principle_nodes_of s tn)) \<and>
              (\<forall>kn\<in>set tn.
                 principle (s ! snd kn) \<or> kind (s ! snd kn) = SimpleToEventStream \<longrightarrow>
                 snd kn < length s' \<and> self \<in> set (stream.subs (s' ! snd kn)))))"
proof -
  obtain graph where w: "walk_to_translation s DiGraph (Walk (Some self) None) = Some graph"
    using walk_total[of "Walk (Some self) None" s DiGraph] by auto
  have "attrs_ok s (nodes graph)"
    using walk_attrs[OF w] by (simp add: attrs_ok_def DiGraph_def live_def)
  then obtain tn where tn: "translation_nodes_of s self [] (nodes graph) = Inr tn"
    and st: "set tn = {kn. (fst kn, Some (snd kn)) \<in> set (nodes graph) \<and> boundary s self (snd kn)}"
    using translation_nodes_of_ok[of s "nodes graph" "[]" self] by auto
  have v: "\<forall>kn\<in>set tn. snd kn < length s" using st by (auto simp: boundary_def)
  let ?pn = "principle_nodes_of s tn"
  have e: "?pn = [] \<longleftrightarrow>
        (\<forall>kn\<in>set tn. \<not> principle (s ! snd kn) \<and> kind (s ! snd kn) \<noteq> SimpleToEventStream)"
    by (auto simp: principle_nodes_of_def filter_empty_conv)
  have i: "init_to s self =
      Some (if ?pn = [] then Inl RuntimeError else Inr (subs_append s ?pn self, tn, ?pn))"
    by (simp add: init_to_def w tn Let_def)
  have pv: "\<forall>q\<in>set ?pn. q < length s" using v by (auto simp: principle_nodes_of_def)
  have r: "snd kn < length (subs_append s ?pn self) \<and>
           self \<in> set (stream.subs (subs_append s ?pn self ! snd kn))"
    if "kn \<in> set tn" "principle (s ! snd kn) \<or> kind (s ! snd kn) = SimpleToEventStream" for kn
  proof -
    have "snd kn \<in> set ?pn" using that by (auto simp: principle_nodes_of_def)
    then show ?thesis using subs_append_registers[OF _ pv] v that(1) by simp
  qed
  have c3: "init_to s self = Some (Inl RuntimeError) \<longleftrightarrow>
        (\<forall>kn\<in>set tn. \<not> principle (s ! snd kn) \<and> kind (s ! snd kn) \<noteq> SimpleToEventStream)"
    using e i by auto
  have c4: "init_to s self \<noteq> Some (Inl RuntimeError) \<longrightarrow>
        (\<exists>s'. init_to s self = Some (Inr (s', tn, principle_nodes_of s tn)) \<and>
              (\<forall>kn\<in>set tn.
                 principle (s ! snd kn) \<or> kind (s ! snd kn) = SimpleToEventStream \<longrightarrow>
                 snd kn < length s' \<and> self \<in> set (stream.subs (s' ! snd kn))))"
    using i r by (cases "?pn = []") auto
  show ?thesis using w st c3 c4 by blast
qed

lemma init_pipeline:
  "init_to pipeline_store 0 =
     Some (Inr ([\<lparr>kind = SimpleToEventStream, uid = Some ''r'', principle = False,
                  upstreams = [Some 1], downstreams = [], subs = []\<rparr>,
                 \<lparr>kind = Stream, uid = None, principle = False,
                  upstreams = [Some 2], downstreams = [0], subs = []\<rparr>,
                 \<lparr>kind = SimpleFromEventStream, uid = Some ''e'', principle = True,
                  upstreams = [None], downstreams = [1], subs = [0]\<rparr>],
                [(Uid ''e'', 2)], [2]))"
  by code_simp

lemma init_cyclic: "init_to cyclic_store 0 = Some (Inl RuntimeError)"
  by code_simp

theorem init_to_config_error_witness:
  "init_to pipeline_store 0 \<noteq> Some (Inl RuntimeError) \<and>
   (\<exists>s' tn. init_to pipeline_store 0 = Some (Inr (s', tn, principle_nodes_of pipeline_store tn)) \<and>
      (Uid ''e'', 2) \<in> set tn \<and> principle (pipeline_store ! 2) \<and>
      0 \<in> set (stream.subs (s' ! 2)))"
proof -
  have n: "init_to pipeline_store 0 \<noteq> Some (Inl RuntimeError)"
    by (simp add: init_pipeline)
  obtain graph :: digraph and tn s' where
    i: "init_to pipeline_store 0 = Some (Inr (s', tn, principle_nodes_of pipeline_store tn))"
    and r: "\<forall>kn\<in>set tn.
         principle (pipeline_store ! snd kn) \<or>
         kind (pipeline_store ! snd kn) = SimpleToEventStream \<longrightarrow>
         snd kn < length s' \<and> 0 \<in> set (stream.subs (s' ! snd kn))"
    using init_to_config_error [of pipeline_store 0] n by blast
  have t: "tn = [(Uid ''e'', 2)]" using i by (simp add: init_pipeline)
  have p: "principle (pipeline_store ! 2)" by (simp add: pipeline_store_def)
  show ?thesis using n i r t p by auto
qed

end
